theory Spec2Isabelle
  imports Complex_Main "HOL-Library.Word"
begin

section \<open>JavaScript numbers\<close>

text \<open>
  The explorer converts block numbers and event arguments from \<open>bigint\<close> to JavaScript
  numbers with \<open>Number(...)\<close> and computes the progress percentage with \<open>/\<close> and \<open>*\<close>
  on numbers. A JavaScript number is an IEEE 754 binary64 value: a finite value is kept
  here as the rational it denotes. Every operation rounds its exact result to the nearest
  binary64 value, ties to even. Negative zero is not kept apart from zero: no operand of
  the program is negative (block numbers and \<open>uint256\<close> arguments), so it never arises.
\<close>

datatype jsnum = NaN | PosInf | NegInf | Fin rat

definition pow2 :: "int \<Rightarrow> rat" where
  "pow2 k = (if 0 \<le> k then 2 ^ nat k else 1 / 2 ^ nat (- k))"

text \<open>The number of binary digits of a positive integer.\<close>

function bit_length :: "int \<Rightarrow> int" where
  "bit_length n = (if n \<le> 0 then 0 else 1 + bit_length (n div 2))"
  by pat_completeness auto
termination
  by (relation "measure nat") auto

declare bit_length.simps [simp del]

text \<open>\<open>ilog2 x\<close> is the binary exponent of a positive \<open>x\<close>: \<open>2 ^ ilog2 x \<le> x < 2 ^ (ilog2 x + 1)\<close>.\<close>

definition ilog2 :: "rat \<Rightarrow> int" where
  "ilog2 x = (if 1 \<le> x then bit_length \<lfloor>x\<rfloor> - 1
              else - bit_length (\<lceil>1 / x\<rceil> - 1))"

definition round_half_even :: "rat \<Rightarrow> int" where
  "round_half_even q =
     (let f = \<lfloor>q\<rfloor>; r = q - of_int f
      in if r < 1 / 2 then f
         else if 1 / 2 < r then f + 1
         else if even f then f else f + 1)"

text \<open>
  The exponent of the unit in the last place: 53 significant bits, and never below the
  subnormal exponent \<open>-1074\<close>.
\<close>

definition ulp_exp :: "rat \<Rightarrow> int" where
  "ulp_exp x = max (ilog2 x - 52) (- 1074)"

definition round_pos :: "rat \<Rightarrow> rat" where
  "round_pos x = of_int (round_half_even (x / pow2 (ulp_exp x))) * pow2 (ulp_exp x)"

definition round_double :: "rat \<Rightarrow> jsnum" where
  "round_double x =
     (if x = 0 then Fin 0
      else if 0 < x then (if pow2 1024 \<le> round_pos x then PosInf else Fin (round_pos x))
      else (if pow2 1024 \<le> round_pos (- x) then NegInf else Fin (- round_pos (- x))))"

definition inf_of_sign :: "rat \<Rightarrow> jsnum" where
  "inf_of_sign a = (if a = 0 then NaN else if 0 < a then PosInf else NegInf)"

fun jsdiv :: "jsnum \<Rightarrow> jsnum \<Rightarrow> jsnum" where
  "jsdiv NaN y = NaN"
| "jsdiv x NaN = NaN"
| "jsdiv (Fin a) (Fin b) = (if b = 0 then inf_of_sign a else round_double (a / b))"
| "jsdiv (Fin a) y = Fin 0"
| "jsdiv PosInf (Fin b) = (if b < 0 then NegInf else PosInf)"
| "jsdiv NegInf (Fin b) = (if b < 0 then PosInf else NegInf)"
| "jsdiv x y = NaN"

fun jsmul :: "jsnum \<Rightarrow> jsnum \<Rightarrow> jsnum" where
  "jsmul NaN y = NaN"
| "jsmul x NaN = NaN"
| "jsmul (Fin a) (Fin b) = round_double (a * b)"
| "jsmul (Fin a) PosInf = inf_of_sign a"
| "jsmul (Fin a) NegInf = inf_of_sign (- a)"
| "jsmul PosInf (Fin b) = inf_of_sign b"
| "jsmul NegInf (Fin b) = inf_of_sign (- b)"
| "jsmul PosInf PosInf = PosInf"
| "jsmul NegInf NegInf = PosInf"
| "jsmul x y = NegInf"

text \<open>The comparison \<open>x <= y\<close> of JavaScript numbers: false as soon as one side is NaN.\<close>

fun js_le :: "jsnum \<Rightarrow> jsnum \<Rightarrow> bool" where
  "js_le NaN y = False"
| "js_le x NaN = False"
| "js_le NegInf y = True"
| "js_le x PosInf = True"
| "js_le (Fin a) (Fin b) = (a \<le> b)"
| "js_le x y = False"

text \<open>\<open>Number(n)\<close> of a \<open>bigint\<close>, and of an event argument that may be \<open>undefined\<close>.\<close>

definition Number_bigint :: "int \<Rightarrow> jsnum" where
  "Number_bigint n = round_double (of_int n)"

type_synonym uint256 = "256 word"

definition Number_arg :: "uint256 option \<Rightarrow> jsnum" where
  "Number_arg a = (case a of None \<Rightarrow> NaN | Some w \<Rightarrow> Number_bigint (uint w))"

section \<open>Event logs and application state\<close>

text \<open>
  The three argument records of \<open>App.tsx\<close>. Every field is optional in the source
  (\<open>field?: T | undefined\<close>); hashes and addresses are hex strings, \<open>uint256\<close> values
  are \<open>bigint\<close>s below \<open>2 ^ 256\<close>.
\<close>

record DepositLog =
  wtxId :: "string option"
  txId :: "string option"
  recipient :: "string option"
  timestamp :: "uint256 option"
  depositId :: "uint256 option"

record WithdrawalLog =
  utxo :: "(string \<times> string) option"
  index :: "uint256 option"
  wtimestamp :: "uint256 option"

record WithdrawFillerLog =
  withdrawId :: "uint256 option"
  withdrawFillerId :: "uint256 option"

text \<open>
  A decoded log entry: \<open>getLogs\<close> is called with the three event signatures, so
  \<open>log.eventName\<close> is one of the three names and \<open>log.args\<close> has the matching shape.
\<close>

datatype log =
    Deposit DepositLog
  | Withdrawal WithdrawalLog
  | WithdrawFillerDeclared WithdrawFillerLog

text \<open>
  The component state that \<open>fetchResources\<close> and the settings dialog write. The filler
  collection is a \<open>Record<number, number>\<close>: a property key is the string of a number, and
  distinct numbers have distinct strings, so the map is keyed by the number itself.
\<close>

record app_state =
  isSettingsOpen :: bool
  progress :: jsnum
  depositLogs :: "DepositLog list"
  withdrawLogs :: "WithdrawalLog list"
  withdrawFillerLogs :: "jsnum \<rightharpoonup> jsnum"
  isLoaded :: bool

text \<open>The initial values of the \<open>useState\<close> hooks: the state after a page load.\<close>

definition initial_state :: app_state where
  "initial_state =
     \<lparr>isSettingsOpen = False, progress = Fin 0, depositLogs = [], withdrawLogs = [],
      withdrawFillerLogs = Map.empty, isLoaded = False\<rparr>"

text \<open>
  The node behind the viem client: \<open>getBlockNumber\<close> resolves to a height or rejects,
  and \<open>getLogs\<close> resolves to the decoded logs of a block range or rejects.
\<close>

datatype rpc_error = RpcError string

record node =
  getBlockNumber :: "rpc_error + int"
  getLogs :: "int \<Rightarrow> int \<Rightarrow> rpc_error + log list"

text \<open>What a run does besides writing the collections, in the order it does it.\<close>

datatype effect =
    SetIsLoaded bool
  | CallGetBlockNumber
  | CallGetLogs int int
  | ConsoleLog int int "log list"
  | ConsoleErrorLogs int int rpc_error
  | SetProgress jsnum
  | ConsoleErrorResources rpc_error

section \<open>fetchResources\<close>

definition batchSize :: int where
  "batchSize = 1000"

text \<open>The body of \<open>logs.forEach\<close>: one state update per entry, chosen by \<open>eventName\<close>.\<close>

fun dispatch_log :: "log \<Rightarrow> app_state \<Rightarrow> app_state" where
  "dispatch_log (Deposit args) s = s\<lparr>depositLogs := depositLogs s @ [args]\<rparr>"
| "dispatch_log (Withdrawal args) s = s\<lparr>withdrawLogs := withdrawLogs s @ [args]\<rparr>"
| "dispatch_log (WithdrawFillerDeclared args) s =
     s\<lparr>withdrawFillerLogs :=
         (withdrawFillerLogs s)(Number_arg (withdrawId args) \<mapsto>
                                  Number_arg (withdrawFillerId args))\<rparr>"

fun forEach_logs :: "log list \<Rightarrow> app_state \<Rightarrow> app_state" where
  "forEach_logs [] s = s"
| "forEach_logs (l # ls) s = forEach_logs ls (dispatch_log l s)"

text \<open>The upper end of the window that starts at \<open>fromBlock\<close>.\<close>

definition window_to :: "int \<Rightarrow> int \<Rightarrow> int" where
  "window_to blockNumber fromBlock =
     (let toBlock = fromBlock + batchSize - 1
      in if toBlock > blockNumber then blockNumber else toBlock)"

text \<open>The inner \<open>try\<close>/\<open>catch\<close>: one query; its logs are dispatched, or its error is logged.\<close>

definition fetch_window :: "node \<Rightarrow> int \<Rightarrow> int \<Rightarrow> app_state \<Rightarrow> app_state \<times> effect list" where
  "fetch_window nd fromBlock toBlock s =
     (case getLogs nd fromBlock toBlock of
        Inr logs \<Rightarrow>
          (forEach_logs logs s, [CallGetLogs fromBlock toBlock, ConsoleLog fromBlock toBlock logs])
      | Inl err \<Rightarrow>
          (s, [CallGetLogs fromBlock toBlock, ConsoleErrorLogs fromBlock toBlock err]))"

text \<open>\<open>Number((Number(fromBlock) / Number(blockNumber)) * 100)\<close>.\<close>

definition progress_value :: "int \<Rightarrow> int \<Rightarrow> jsnum" where
  "progress_value fromBlock blockNumber =
     jsmul (jsdiv (Number_bigint fromBlock) (Number_bigint blockNumber)) (Fin 100)"

text \<open>The \<open>while\<close> loop, from the cursor \<open>fromBlock\<close> on.\<close>

function scan_loop :: "node \<Rightarrow> int \<Rightarrow> int \<Rightarrow> app_state \<Rightarrow> app_state \<times> effect list" where
  "scan_loop nd blockNumber fromBlock s =
     (if fromBlock \<le> blockNumber then
        let toBlock = window_to blockNumber fromBlock;
            w = fetch_window nd fromBlock toBlock s;
            p = progress_value (toBlock + 1) blockNumber;
            r = scan_loop nd blockNumber (toBlock + 1) ((fst w)\<lparr>progress := p\<rparr>)
        in (fst r, snd w @ SetProgress p # snd r)
      else (s, []))"
  by pat_completeness auto
termination
  by (relation "measure (\<lambda>(nd, blockNumber, fromBlock, s). nat (blockNumber + 1 - fromBlock))")
     (auto simp: window_to_def batchSize_def Let_def)

declare scan_loop.simps [simp del]

text \<open>
  \<open>fetchResources\<close>: the outer \<open>try\<close>/\<open>catch\<close>. Only \<open>getBlockNumber\<close> can reject outside
  the inner \<open>try\<close>; the promise of \<open>fetchResources\<close> itself always resolves.
\<close>

definition fetchResources :: "node \<Rightarrow> app_state \<Rightarrow> app_state \<times> effect list" where
  "fetchResources nd s =
     (let s0 = s\<lparr>isLoaded := False\<rparr>
      in case getBlockNumber nd of
           Inr blockNumber \<Rightarrow>
             (let r = scan_loop nd blockNumber 0 s0
              in ((fst r)\<lparr>isLoaded := True\<rparr>,
                  SetIsLoaded False # CallGetBlockNumber # snd r @ [SetIsLoaded True]))
         | Inl err \<Rightarrow>
             (s0\<lparr>isLoaded := False\<rparr>,
              [SetIsLoaded False, CallGetBlockNumber, ConsoleErrorResources err,
               SetIsLoaded False]))"

text \<open>The Save button of the settings dialog.\<close>

definition save_settings :: "node \<Rightarrow> app_state \<Rightarrow> app_state \<times> effect list" where
  "save_settings nd s = fetchResources nd (s\<lparr>isSettingsOpen := False\<rparr>)"

subsection \<open>Reading a run\<close>

fun queries :: "effect list \<Rightarrow> (int \<times> int) list" where
  "queries [] = []"
| "queries (CallGetLogs f t # es) = (f, t) # queries es"
| "queries (e # es) = queries es"

fun progress_events :: "effect list \<Rightarrow> jsnum list" where
  "progress_events [] = []"
| "progress_events (SetProgress p # es) = p # progress_events es"
| "progress_events (e # es) = progress_events es"

fun logged_failures :: "effect list \<Rightarrow> (int \<times> int \<times> rpc_error) list" where
  "logged_failures [] = []"
| "logged_failures (ConsoleErrorLogs f t err # es) = (f, t, err) # logged_failures es"
| "logged_failures (e # es) = logged_failures es"

fun failure_signals :: "effect list \<Rightarrow> rpc_error list" where
  "failure_signals [] = []"
| "failure_signals (ConsoleErrorResources err # es) = err # failure_signals es"
| "failure_signals (e # es) = failure_signals es"

text \<open>The scan state of the specification, read from \<open>isLoaded\<close> after the run.\<close>

datatype scan_status = Completed | Failed

definition status_of :: "app_state \<Rightarrow> scan_status" where
  "status_of s = (if isLoaded s then Completed else Failed)"

text \<open>The windows of a scan to height \<open>blockNumber\<close>, from the cursor \<open>fromBlock\<close> on.\<close>

function windows_from :: "int \<Rightarrow> int \<Rightarrow> (int \<times> int) list" where
  "windows_from blockNumber fromBlock =
     (if fromBlock \<le> blockNumber then
        (fromBlock, window_to blockNumber fromBlock)
          # windows_from blockNumber (window_to blockNumber fromBlock + 1)
      else [])"
  by pat_completeness auto
termination
  by (relation "measure (\<lambda>(blockNumber, fromBlock). nat (blockNumber + 1 - fromBlock))")
     (auto simp: window_to_def batchSize_def Let_def)

declare windows_from.simps [simp del]

text \<open>The logs a run receives: those of the windows whose query succeeds, in window order.\<close>

definition window_logs :: "node \<Rightarrow> int \<times> int \<Rightarrow> log list" where
  "window_logs nd w = (case getLogs nd (fst w) (snd w) of Inl err \<Rightarrow> [] | Inr logs \<Rightarrow> logs)"

definition fetched_logs :: "node \<Rightarrow> log list" where
  "fetched_logs nd =
     (case getBlockNumber nd of
        Inl err \<Rightarrow> []
      | Inr blockNumber \<Rightarrow> concat (map (window_logs nd) (windows_from blockNumber 0)))"

text \<open>The failures a run logs: one per window whose query rejects.\<close>

definition window_failure :: "node \<Rightarrow> int \<times> int \<Rightarrow> (int \<times> int \<times> rpc_error) list" where
  "window_failure nd w =
     (case getLogs nd (fst w) (snd w) of Inl err \<Rightarrow> [(fst w, snd w, err)] | Inr logs \<Rightarrow> [])"

subsection \<open>Nodes and states used as concrete inputs\<close>

definition quiet_node :: "int \<Rightarrow> node" where
  "quiet_node H = \<lparr>getBlockNumber = Inr H, getLogs = (\<lambda>f t. Inr [])\<rparr>"

definition down_node :: node where
  "down_node = \<lparr>getBlockNumber = Inl (RpcError ''unreachable''), getLogs = (\<lambda>f t. Inr [])\<rparr>"

definition flaky_node :: "int \<Rightarrow> node" where
  "flaky_node H =
     \<lparr>getBlockNumber = Inr H,
      getLogs = (\<lambda>f t. if f = 1000 then Inl (RpcError ''timeout'') else Inr [])\<rparr>"

definition deposit_a :: DepositLog where
  "deposit_a = \<lparr>wtxId = None, txId = Some ''0x0a0b'', recipient = None, timestamp = Some 1,
                 depositId = Some 0\<rparr>"

definition withdrawal_a :: WithdrawalLog where
  "withdrawal_a = \<lparr>utxo = Some (''0x0c0d'', ''0x00000000''), index = Some 0, wtimestamp = Some 2\<rparr>"

definition filler_decl :: "uint256 \<Rightarrow> uint256 \<Rightarrow> WithdrawFillerLog" where
  "filler_decl w f = \<lparr>withdrawId = Some w, withdrawFillerId = Some f\<rparr>"

definition bridge_node :: "log list \<Rightarrow> node" where
  "bridge_node logs = \<lparr>getBlockNumber = Inr 0, getLogs = (\<lambda>f t. Inr logs)\<rparr>"

section \<open>reverseHex\<close>

text \<open>
  Strings are lists of characters. In the regular expression \<open>/.{1,2}/g\<close> the dot matches
  any character but a line terminator.
\<close>

definition is_line_terminator :: "char \<Rightarrow> bool" where
  "is_line_terminator c = (c = CHR 0x0A \<or> c = CHR 0x0D)"

definition startsWith :: "string \<Rightarrow> string \<Rightarrow> bool" where
  "startsWith s p = (take (length p) s = p)"

text \<open>All matches of \<open>/.{1,2}/g\<close>, left to right: each takes two characters when it can.\<close>

fun match_pairs :: "string \<Rightarrow> string list" where
  "match_pairs [] = []"
| "match_pairs [c] = (if is_line_terminator c then [] else [[c]])"
| "match_pairs (c # d # cs) =
     (if is_line_terminator c then match_pairs (d # cs)
      else if is_line_terminator d then [c] # match_pairs (d # cs)
      else [c, d] # match_pairs cs)"

text \<open>\<open>String.prototype.match\<close> with a global pattern: \<open>null\<close> when nothing matches.\<close>

definition js_match :: "string \<Rightarrow> string list option" where
  "js_match s = (case match_pairs s of [] \<Rightarrow> None | m # ms \<Rightarrow> Some (m # ms))"

definition reverseHex :: "string \<Rightarrow> string" where
  "reverseHex hexString =
     (let cleanedHex = (if startsWith hexString ''0x'' then drop 2 hexString else hexString)
      in case js_match cleanedHex of
           None \<Rightarrow> ''''
         | Some ms \<Rightarrow> (let joined = concat (rev ms) in if joined = '''' then '''' else joined))"

definition is_hex_digit :: "char \<Rightarrow> bool" where
  "is_hex_digit c = (c \<in> set ''0123456789abcdefABCDEF'')"

definition hex_string :: "string \<Rightarrow> bool" where
  "hex_string s = list_all is_hex_digit s"

text \<open>A string that the dot of the pattern matches character by character.\<close>

definition no_terminator :: "string \<Rightarrow> bool" where
  "no_terminator s = list_all (\<lambda>c. \<not> is_line_terminator c) s"

section \<open>Rounding to binary64\<close>

lemma pow2_powi: "pow2 k = 2 powi k"
  by (simp add: pow2_def power_int_def power_inverse [symmetric] inverse_eq_divide power_one_over)

lemma pow2_pos: "0 < pow2 k"
  by (simp add: pow2_powi)

lemma pow2_add: "pow2 (a + b) = pow2 a * pow2 b"
  by (simp add: pow2_powi power_int_add)

lemma pow2_nat: "pow2 (int n) = 2 ^ n"
  by (simp add: pow2_def)

lemma pow2_mono: "a \<le> b \<Longrightarrow> pow2 a \<le> pow2 b"
  by (simp add: pow2_powi power_int_increasing)

lemma pow2_strict_mono: "a < b \<Longrightarrow> pow2 a < pow2 b"
  by (simp add: pow2_powi power_int_strict_increasing)

lemma pow2_less_cancel: "pow2 a < pow2 b \<Longrightarrow> a < b"
  using pow2_mono [of b a] by (cases "a < b") auto

lemma pow2_minus: "pow2 (- k) = 1 / pow2 k"
  by (simp add: pow2_powi power_int_minus inverse_eq_divide)

lemma bit_length_bounds:
  "0 < n \<Longrightarrow> 1 \<le> bit_length n \<and> 2 ^ nat (bit_length n - 1) \<le> n \<and> n < 2 ^ nat (bit_length n)"
proof (induction n rule: bit_length.induct)
  case (1 n)
  show ?case
  proof (cases "n = 1")
    case True
    then show ?thesis by (simp add: bit_length.simps [of 1] bit_length.simps [of 0])
  next
    case False
    with "1.prems" have pos: "0 < n div 2" by simp
    from "1.prems" have nle: "\<not> n \<le> 0" by simp
    from "1.IH" [OF nle pos]
    have ih: "1 \<le> bit_length (n div 2)" "2 ^ nat (bit_length (n div 2) - 1) \<le> n div 2"
         "n div 2 < 2 ^ nat (bit_length (n div 2))"
      by simp_all
    have eq: "bit_length n = 1 + bit_length (n div 2)"
      using nle by (subst bit_length.simps) simp
    have n1: "nat (bit_length n - 1) = Suc (nat (bit_length (n div 2) - 1))"
      using ih(1) by (simp add: eq)
    have n2: "nat (bit_length n) = Suc (nat (bit_length (n div 2)))"
      using ih(1) by (simp add: eq)
    from ih(2) have "2 * 2 ^ nat (bit_length (n div 2) - 1) \<le> n" by linarith
    then have lo: "2 ^ nat (bit_length n - 1) \<le> n" by (simp only: n1 power_Suc)
    from ih(3) have "n < 2 * 2 ^ nat (bit_length (n div 2))" by linarith
    then have hi: "n < 2 ^ nat (bit_length n)" by (simp only: n2 power_Suc)
    from ih(1) have "1 \<le> bit_length n" by (simp add: eq)
    with lo hi show ?thesis by blast
  qed
qed

lemma bit_length_pow2:
  assumes "0 < n"
  shows "pow2 (bit_length n - 1) \<le> of_int n" and "of_int n + 1 \<le> pow2 (bit_length n)"
proof -
  from bit_length_bounds [OF assms]
  have b: "1 \<le> bit_length n" "2 ^ nat (bit_length n - 1) \<le> n" "n < 2 ^ nat (bit_length n)"
    by simp_all
  have "pow2 (bit_length n - 1) = 2 ^ nat (bit_length n - 1)"
    using b(1) by (simp add: pow2_def)
  also have "\<dots> = of_int (2 ^ nat (bit_length n - 1))" by simp
  also have "\<dots> \<le> of_int n" using b(2) by (simp only: of_int_le_iff)
  finally show "pow2 (bit_length n - 1) \<le> of_int n" .
  from b(3) have "n + 1 \<le> 2 ^ nat (bit_length n)" by simp
  then have "(of_int (n + 1) :: rat) \<le> of_int (2 ^ nat (bit_length n))"
    by (simp only: of_int_le_iff)
  then show "of_int n + 1 \<le> pow2 (bit_length n)"
    using b(1) by (simp add: pow2_def)
qed

text \<open>\<open>ilog2\<close> is the binary exponent, and the only one.\<close>

lemma ilog2_bounds:
  assumes "0 < x"
  shows "pow2 (ilog2 x) \<le> x" and "x < pow2 (ilog2 x + 1)"
proof -
  show "pow2 (ilog2 x) \<le> x"
  proof (cases "1 \<le> x")
    case True
    then have pos: "0 < \<lfloor>x\<rfloor>" by simp
    have "pow2 (bit_length \<lfloor>x\<rfloor> - 1) \<le> of_int \<lfloor>x\<rfloor>" by (rule bit_length_pow2 [OF pos])
    also have "\<dots> \<le> x" by simp
    finally show ?thesis using True by (simp add: ilog2_def)
  next
    case False
    let ?m = "\<lceil>1 / x\<rceil> - 1"
    from False assms have "1 < 1 / x" by simp
    then have pos: "0 < ?m" by simp
    have "1 / x \<le> of_int \<lceil>1 / x\<rceil>" by simp
    also have "\<dots> = of_int ?m + 1" by simp
    also have "\<dots> \<le> pow2 (bit_length ?m)" by (rule bit_length_pow2 [OF pos])
    finally have "1 / x \<le> pow2 (bit_length ?m)" .
    then have "1 / pow2 (bit_length ?m) \<le> x"
      using assms pow2_pos [of "bit_length ?m"] by (simp add: field_simps)
    then show ?thesis using False by (simp add: ilog2_def pow2_minus)
  qed
  show "x < pow2 (ilog2 x + 1)"
  proof (cases "1 \<le> x")
    case True
    then have pos: "0 < \<lfloor>x\<rfloor>" by simp
    have "x < of_int \<lfloor>x\<rfloor> + 1" using floor_correct [of x] by simp
    also have "\<dots> \<le> pow2 (bit_length \<lfloor>x\<rfloor>)" by (rule bit_length_pow2 [OF pos])
    finally show ?thesis using True by (simp add: ilog2_def)
  next
    case False
    let ?m = "\<lceil>1 / x\<rceil> - 1"
    from False assms have "1 < 1 / x" by simp
    then have pos: "0 < ?m" by simp
    have "pow2 (bit_length ?m - 1) \<le> of_int ?m" by (rule bit_length_pow2 [OF pos])
    also have "\<dots> < 1 / x" using ceiling_correct [of "1 / x"] by simp
    finally have "pow2 (bit_length ?m - 1) < 1 / x" .
    then have "x < 1 / pow2 (bit_length ?m - 1)"
      using assms pow2_pos [of "bit_length ?m - 1"] by (simp add: field_simps)
    also have "\<dots> = pow2 (- (bit_length ?m - 1))" by (simp only: pow2_minus)
    also have "- (bit_length ?m - 1) = - bit_length ?m + 1" by simp
    finally show ?thesis using False by (simp add: ilog2_def)
  qed
qed

lemma ilog2_unique:
  assumes "0 < x" and "pow2 k \<le> x" and "x < pow2 (k + 1)"
  shows "ilog2 x = k"
proof -
  from ilog2_bounds(1) [OF assms(1)] assms(3) have "pow2 (ilog2 x) < pow2 (k + 1)" by simp
  then have "ilog2 x < k + 1" by (rule pow2_less_cancel)
  moreover from assms(2) ilog2_bounds(2) [OF assms(1)] have "pow2 k < pow2 (ilog2 x + 1)" by simp
  then have "k < ilog2 x + 1" by (rule pow2_less_cancel)
  ultimately show ?thesis by simp
qed

lemma ilog2_mono:
  assumes "0 < x" and "x \<le> y"
  shows "ilog2 x \<le> ilog2 y"
proof -
  from assms have y: "0 < y" by simp
  from ilog2_bounds(1) [OF assms(1)] assms(2) ilog2_bounds(2) [OF y]
  have "pow2 (ilog2 x) < pow2 (ilog2 y + 1)" by simp
  then have "ilog2 x < ilog2 y + 1" by (rule pow2_less_cancel)
  then show ?thesis by simp
qed

lemma round_half_even_of_int: "round_half_even (of_int n) = n"
  by (simp add: round_half_even_def)

lemma round_half_even_bounds: "\<lfloor>q\<rfloor> \<le> round_half_even q" "round_half_even q \<le> \<lfloor>q\<rfloor> + 1"
  by (simp_all add: round_half_even_def Let_def)

lemma round_half_even_mono:
  assumes "a \<le> b"
  shows "round_half_even a \<le> round_half_even b"
proof (cases "\<lfloor>a\<rfloor> < \<lfloor>b\<rfloor>")
  case True
  have "round_half_even a \<le> \<lfloor>a\<rfloor> + 1" by (rule round_half_even_bounds)
  also have "\<dots> \<le> \<lfloor>b\<rfloor>" using True by simp
  also have "\<dots> \<le> round_half_even b" by (rule round_half_even_bounds)
  finally show ?thesis .
next
  case False
  with floor_mono [OF assms] have eq: "\<lfloor>a\<rfloor> = \<lfloor>b\<rfloor>" by simp
  with assms show ?thesis
    by (auto simp: round_half_even_def Let_def)
qed

lemma pow2_53: "pow2 (e + 53) = of_int (2 ^ 53) * pow2 e"
proof -
  have "pow2 53 = of_int (2 ^ 53)" by (simp add: pow2_def)
  with pow2_add [of e 53] show ?thesis by (simp only: mult.commute)
qed

lemma pow2_52: "pow2 (e + 52) = of_int (2 ^ 52) * pow2 e"
proof -
  have "pow2 52 = of_int (2 ^ 52)" by (simp add: pow2_def)
  with pow2_add [of e 52] show ?thesis by (simp only: mult.commute)
qed

lemma ulp_exp_mono: "0 < x \<Longrightarrow> x \<le> y \<Longrightarrow> ulp_exp x \<le> ulp_exp y"
  using ilog2_mono [of x y] by (simp add: ulp_exp_def)

lemma round_pos_nonneg: "0 < x \<Longrightarrow> 0 \<le> round_pos x"
proof -
  assume x: "0 < x"
  have "0 \<le> x / pow2 (ulp_exp x)" using x pow2_pos [of "ulp_exp x"] by simp
  then have "0 \<le> \<lfloor>x / pow2 (ulp_exp x)\<rfloor>" by simp
  also have "\<dots> \<le> round_half_even (x / pow2 (ulp_exp x))" by (rule round_half_even_bounds)
  finally show ?thesis using pow2_pos [of "ulp_exp x"] by (simp add: round_pos_def)
qed

lemma round_pos_upper:
  assumes "0 < x"
  shows "round_pos x \<le> pow2 (ulp_exp x + 53)"
proof -
  let ?e = "ulp_exp x"
  have "ilog2 x + 1 \<le> ?e + 53" by (simp add: ulp_exp_def)
  then have "pow2 (ilog2 x + 1) \<le> pow2 (?e + 53)" by (rule pow2_mono)
  with ilog2_bounds(2) [OF assms] have "x \<le> pow2 (?e + 53)" by simp
  also have "\<dots> = of_int (2 ^ 53) * pow2 ?e" by (rule pow2_53)
  finally have "x / pow2 ?e \<le> of_int (2 ^ 53)"
    using pow2_pos [of ?e] by (simp add: field_simps)
  from round_half_even_mono [OF this]
  have "round_half_even (x / pow2 ?e) \<le> 2 ^ 53" by (simp only: round_half_even_of_int)
  then have "(of_int (round_half_even (x / pow2 ?e)) :: rat) \<le> of_int (2 ^ 53)"
    by (simp only: of_int_le_iff)
  then have "round_pos x \<le> of_int (2 ^ 53) * pow2 ?e"
    unfolding round_pos_def using pow2_pos [of ?e] by (simp only: mult_le_cancel_right_pos)
  also have "\<dots> = pow2 (?e + 53)" by (rule pow2_53 [symmetric])
  finally show ?thesis .
qed

lemma round_pos_lower:
  assumes "0 < x" and "ulp_exp x = ilog2 x - 52"
  shows "pow2 (ulp_exp x + 52) \<le> round_pos x"
proof -
  let ?e = "ulp_exp x"
  have "of_int (2 ^ 52) * pow2 ?e = pow2 (?e + 52)" by (rule pow2_52 [symmetric])
  also have "\<dots> = pow2 (ilog2 x)" by (simp add: assms(2))
  also have "\<dots> \<le> x" by (rule ilog2_bounds(1) [OF assms(1)])
  finally have "of_int (2 ^ 52) \<le> x / pow2 ?e"
    using pow2_pos [of ?e] by (simp add: field_simps)
  from round_half_even_mono [OF this]
  have "2 ^ 52 \<le> round_half_even (x / pow2 ?e)" by (simp only: round_half_even_of_int)
  then have "(of_int (2 ^ 52) :: rat) \<le> of_int (round_half_even (x / pow2 ?e))"
    by (simp only: of_int_le_iff)
  then have "of_int (2 ^ 52) * pow2 ?e \<le> round_pos x"
    unfolding round_pos_def using pow2_pos [of ?e] by (simp only: mult_le_cancel_right_pos)
  then show ?thesis by (simp only: pow2_52)
qed

text \<open>Rounding to nearest is monotone.\<close>

lemma round_pos_mono:
  assumes "0 < x" and "x \<le> y"
  shows "round_pos x \<le> round_pos y"
proof (cases "ulp_exp x = ulp_exp y")
  case True
  let ?e = "ulp_exp y"
  from assms(2) have "x / pow2 ?e \<le> y / pow2 ?e"
    using pow2_pos [of ?e] by (simp add: divide_right_mono)
  from round_half_even_mono [OF this]
  have "(of_int (round_half_even (x / pow2 ?e)) :: rat) \<le> of_int (round_half_even (y / pow2 ?e))"
    by (simp only: of_int_le_iff)
  then show ?thesis
    unfolding round_pos_def True using pow2_pos [of ?e] by (simp only: mult_le_cancel_right_pos)
next
  case False
  from assms have y: "0 < y" by simp
  from False ulp_exp_mono [OF assms] have lt: "ulp_exp x < ulp_exp y" by simp
  have "- 1074 \<le> ulp_exp x" by (simp add: ulp_exp_def)
  with lt have "ulp_exp y = ilog2 y - 52" by (simp add: ulp_exp_def max_def split: if_splits)
  from round_pos_lower [OF y this] have lo: "pow2 (ulp_exp y + 52) \<le> round_pos y" .
  from lt have "ulp_exp x + 53 \<le> ulp_exp y + 52" by simp
  then have "pow2 (ulp_exp x + 53) \<le> pow2 (ulp_exp y + 52)" by (rule pow2_mono)
  with round_pos_upper [OF assms(1)] lo show ?thesis by simp
qed

lemma round_double_mono:
  assumes "0 \<le> x" and "x \<le> y"
  shows "js_le (round_double x) (round_double y)"
proof (cases "x = 0")
  case True
  show ?thesis
  proof (cases "y = 0")
    case True
    with \<open>x = 0\<close> show ?thesis by (simp add: round_double_def)
  next
    case False
    with assms True have y: "0 < y" by simp
    from round_pos_nonneg [OF y] y True show ?thesis by (simp add: round_double_def)
  qed
next
  case False
  with assms have x: "0 < x" and y: "0 < y" by simp_all
  from round_pos_mono [OF x assms(2)] x y show ?thesis by (simp add: round_double_def)
qed

text \<open>A number in the normal range rounds to 53 significant bits and does not overflow.\<close>

lemma round_double_normal:
  assumes "0 < x" and "pow2 k \<le> x" and "x < pow2 (k + 1)" and "- 1022 \<le> k" and "k < 1023"
  shows "round_double x = Fin (of_int (round_half_even (x / pow2 (k - 52))) * pow2 (k - 52))"
proof -
  have k: "ilog2 x = k" by (rule ilog2_unique [OF assms(1-3)])
  have e: "ulp_exp x = k - 52" using assms(4) by (simp add: ulp_exp_def k)
  have "ulp_exp x + 53 = k + 1" by (simp add: e)
  with round_pos_upper [OF assms(1)] have "round_pos x \<le> pow2 (k + 1)" by simp
  also have "\<dots> < pow2 1024" using assms(5) by (intro pow2_strict_mono) simp
  finally have "\<not> pow2 1024 \<le> round_pos x" by simp
  then show ?thesis using assms(1) by (simp add: round_double_def round_pos_def e)
qed

text \<open>Integers up to \<open>2 ^ 53\<close> convert exactly.\<close>

lemma Number_bigint_exact:
  assumes "0 \<le> n" and "n \<le> 2 ^ 53"
  shows "Number_bigint n = Fin (of_int n)"
proof (cases "n = 0")
  case True
  then show ?thesis by (simp add: Number_bigint_def round_double_def)
next
  case False
  with assms have pos: "0 < n" by simp
  let ?x = "of_int n :: rat"
  let ?k = "ilog2 ?x"
  have x: "0 < ?x" using pos by simp
  have "pow2 0 \<le> ?x" using pos by (simp add: pow2_def)
  with ilog2_bounds(2) [OF x] have "pow2 0 < pow2 (?k + 1)" by simp
  then have k0: "0 \<le> ?k" using pow2_less_cancel [of 0 "?k + 1"] by simp
  have "?x \<le> of_int (2 ^ 53)" using assms(2) by (simp only: of_int_le_iff)
  also have "\<dots> = pow2 53" by (simp add: pow2_def)
  finally have x53: "?x \<le> pow2 53" .
  with ilog2_bounds(1) [OF x] have "pow2 ?k < pow2 54"
    using pow2_strict_mono [of 53 54] by simp
  then have k53: "?k \<le> 53" using pow2_less_cancel [of ?k 54] by simp
  have "\<exists>m. ?x / pow2 (?k - 52) = of_int m"
  proof (cases "?k \<le> 52")
    case True
    then have "?x / pow2 (?k - 52) = of_int (n * 2 ^ nat (52 - ?k))"
      by (cases "?k = 52") (simp_all add: pow2_def)
    then show ?thesis by blast
  next
    case False
    with k53 have k: "?k = 53" by simp
    from ilog2_bounds(1) [OF x] x53 have "?x = pow2 53" by (simp add: k)
    then have B: "?x = 2 * of_int (2 ^ 52)" by (simp add: pow2_def)
    have A: "pow2 (?k - 52) = 2" by (simp add: k pow2_def)
    have "?x / pow2 (?k - 52) = (2 * of_int (2 ^ 52)) / 2" by (simp only: A B [symmetric])
    also have "\<dots> = of_int (2 ^ 52)" by simp
    finally show ?thesis by blast
  qed
  then obtain m where m: "?x / pow2 (?k - 52) = of_int m" by blast
  have r: "round_half_even (?x / pow2 (?k - 52)) = m"
    by (simp only: m round_half_even_of_int)
  from m have xm: "of_int m * pow2 (?k - 52) = ?x"
    using pow2_pos [of "?k - 52"] by (simp add: field_simps)
  have "round_double ?x = Fin (of_int (round_half_even (?x / pow2 (?k - 52))) * pow2 (?k - 52))"
    using k0 k53 by (intro round_double_normal [OF x ilog2_bounds(1) [OF x] ilog2_bounds(2) [OF x]]) simp_all
  also have "\<dots> = Fin ?x" by (simp only: r xm)
  finally show ?thesis by (simp only: Number_bigint_def)
qed

subsection \<open>Progress values\<close>

lemma round_double_of_int: "0 \<le> n \<Longrightarrow> n \<le> 2 ^ 53 \<Longrightarrow> round_double (of_int n) = Fin (of_int n)"
  using Number_bigint_exact [of n] by (simp add: Number_bigint_def)

lemma round_double_1: "round_double 1 = Fin 1"
  using round_double_of_int [of 1] by simp

lemma round_double_100: "round_double 100 = Fin 100"
  using round_double_of_int [of 100] by simp

lemma round_double_0: "round_double 0 = Fin 0"
  by (simp add: round_double_def)

lemma round_double_nonneg_cases:
  assumes "0 \<le> x"
  shows "(\<exists>a. round_double x = Fin a \<and> 0 \<le> a) \<or> round_double x = PosInf"
proof (cases "x = 0")
  case True
  then show ?thesis by (simp add: round_double_def)
next
  case False
  with assms have x: "0 < x" by simp
  from round_pos_nonneg [OF x] x show ?thesis by (simp add: round_double_def)
qed

lemma js_between:
  assumes "js_le (Fin l) y" and "js_le y (Fin u)"
  shows "\<exists>c. y = Fin c \<and> l \<le> c \<and> c \<le> u"
  using assms by (cases y) simp_all

lemma round_double_between:
  assumes "0 \<le> l" and "l \<le> x" and "x \<le> u"
    and "round_double l = Fin l" and "round_double u = Fin u"
  shows "\<exists>c. round_double x = Fin c \<and> l \<le> c \<and> c \<le> u"
proof -
  from assms(1,2) have "js_le (round_double l) (round_double x)" by (rule round_double_mono)
  then have lo: "js_le (Fin l) (round_double x)" by (simp only: assms(4))
  from assms(1,2,3) have "js_le (round_double x) (round_double u)"
    by (intro round_double_mono) simp_all
  then have hi: "js_le (round_double x) (Fin u)" by (simp only: assms(5))
  from lo hi show ?thesis by (rule js_between)
qed

text \<open>
  While the cursor is not above a positive height that converts to a finite number, the
  progress value is a finite number between 0 and 100.
\<close>

lemma progress_value_range:
  assumes "0 \<le> f" and "f \<le> H" and "0 < H" and "Number_bigint H \<noteq> PosInf"
  shows "js_le (Fin 0) (progress_value f H) \<and> js_le (progress_value f H) (Fin 100)"
proof -
  have H0: "(0::rat) \<le> of_int H" using assms(3) by simp
  from round_double_nonneg_cases [OF H0] assms(4)
  obtain b where b: "round_double (of_int H) = Fin b"
    unfolding Number_bigint_def by blast
  have "js_le (round_double 1) (round_double (of_int H))"
    using assms(3) by (intro round_double_mono) simp_all
  then have b1: "1 \<le> b" by (simp only: b round_double_1 js_le.simps)
  have f0: "(0::rat) \<le> of_int f" using assms(1) by simp
  have "js_le (round_double (of_int f)) (round_double (of_int H))"
    using assms(1,2) by (intro round_double_mono) simp_all
  then have le: "js_le (round_double (of_int f)) (Fin b)" by (simp only: b)
  from round_double_nonneg_cases [OF f0]
  obtain a where a: "round_double (of_int f) = Fin a" "0 \<le> a"
  proof
    assume "\<exists>a. round_double (of_int f) = Fin a \<and> 0 \<le> a"
    then show ?thesis using that by blast
  next
    assume "round_double (rat_of_int f) = PosInf"
    with le show ?thesis by simp
  qed
  from le have ab: "a \<le> b" by (simp only: a js_le.simps)
  have q: "0 \<le> a / b" "a / b \<le> 1" using a(2) ab b1 by simp_all
  from round_double_between [OF order_refl q(1) q(2) round_double_0 round_double_1]
  obtain c where c: "round_double (a / b) = Fin c" "0 \<le> c" "c \<le> 1" by blast
  have m: "0 \<le> c * 100" "c * 100 \<le> 100" using c(2,3) by simp_all
  from round_double_between [OF order_refl m(1) m(2) round_double_0 round_double_100]
  obtain d where d: "round_double (c * 100) = Fin d" "0 \<le> d" "d \<le> 100" by blast
  from b1 have bn: "b \<noteq> 0" by simp
  have "progress_value f H = jsmul (jsdiv (Fin a) (Fin b)) (Fin 100)"
    by (simp only: progress_value_def Number_bigint_def a b)
  also have "jsdiv (Fin a) (Fin b) = Fin c" using bn by (simp add: c(1))
  also have "jsmul (Fin c) (Fin 100) = Fin d" by (simp add: d(1))
  finally show ?thesis using d(2,3) by simp
qed

lemma floor_rat_numeral: "\<lfloor>numeral a / numeral b :: rat\<rfloor> = numeral a div numeral b"
  by (metis floor_divide_of_int_eq of_int_numeral)

text \<open>
  After the last window the cursor is \<open>H + 1\<close>: at height 1 the progress value is 200,
  and at height 0 the division by zero gives \<open>Infinity\<close>.
\<close>

lemma progress_value_2_1: "progress_value 2 1 = Fin 200"
proof -
  have "round_double 2 = Fin 2" using round_double_of_int [of 2] by simp
  moreover have "round_double 200 = Fin 200" using round_double_of_int [of 200] by simp
  moreover have "Number_bigint 2 = Fin 2" using Number_bigint_exact [of 2] by simp
  moreover have "Number_bigint 1 = Fin 1" using Number_bigint_exact [of 1] by simp
  ultimately show ?thesis by (simp add: progress_value_def)
qed

lemma progress_value_1_0: "progress_value 1 0 = PosInf"
proof -
  have "Number_bigint 1 = Fin 1" using Number_bigint_exact [of 1] by simp
  moreover have "Number_bigint 0 = Fin 0" using Number_bigint_exact [of 0] by simp
  ultimately show ?thesis by (simp add: progress_value_def inf_of_sign_def)
qed

text \<open>
  Rounding a given number, with its binary exponent \<open>k\<close> and the rounded significand
  \<open>m\<close> supplied: what is left to check is arithmetic on numerals.
\<close>

lemma round_double_eval:
  assumes "pow2 k \<le> x" and "x < pow2 (k + 1)" and "- 1022 \<le> k" and "k < 1023"
    and "round_half_even (x / pow2 (k - 52)) = m" and "y = of_int m * pow2 (k - 52)"
  shows "round_double x = Fin y"
proof -
  from pow2_pos [of k] assms(1) have x: "0 < x" by simp
  from round_double_normal [OF x assms(1-4)] show ?thesis by (simp only: assms(5,6))
qed

lemma Number_1000: "Number_bigint 1000 = Fin 1000"
  using Number_bigint_exact [of 1000] by simp

lemma Number_2000: "Number_bigint 2000 = Fin 2000"
  using Number_bigint_exact [of 2000] by simp

lemma Number_2500: "Number_bigint 2500 = Fin 2500"
  using Number_bigint_exact [of 2500] by simp

lemma Number_2501: "Number_bigint 2501 = Fin 2501"
  using Number_bigint_exact [of 2501] by simp

lemma progress_1000_2500: "progress_value 1000 2500 = Fin 40"
proof -
  have d: "round_double (1000 / 2500) = Fin (3602879701896397 / 9007199254740992)"
    by (rule round_double_eval [where k = "- 2" and m = 7205759403792794])
       (simp_all add: pow2_def round_half_even_def Let_def floor_rat_numeral)
  have m: "round_double (3602879701896397 / 9007199254740992 * 100) = Fin 40"
    by (rule round_double_eval [where k = 5 and m = 5629499534213120])
       (simp_all add: pow2_def round_half_even_def Let_def floor_rat_numeral)
  have "progress_value 1000 2500 = jsmul (jsdiv (Fin 1000) (Fin 2500)) (Fin 100)"
    by (simp only: progress_value_def Number_1000 Number_2500)
  also have "jsdiv (Fin 1000) (Fin 2500) = round_double (1000 / 2500)" by simp
  also have "\<dots> = Fin (3602879701896397 / 9007199254740992)" by (rule d)
  also have "jsmul (Fin (3602879701896397 / 9007199254740992)) (Fin 100)
      = round_double (3602879701896397 / 9007199254740992 * 100)"
    by (simp only: jsmul.simps)
  also have "\<dots> = Fin 40" by (rule m)
  finally show ?thesis .
qed

lemma progress_2000_2500: "progress_value 2000 2500 = Fin 80"
proof -
  have d: "round_double (2000 / 2500) = Fin (3602879701896397 / 4503599627370496)"
    by (rule round_double_eval [where k = "- 1" and m = 7205759403792794])
       (simp_all add: pow2_def round_half_even_def Let_def floor_rat_numeral)
  have m: "round_double (3602879701896397 / 4503599627370496 * 100) = Fin 80"
    by (rule round_double_eval [where k = 6 and m = 5629499534213120])
       (simp_all add: pow2_def round_half_even_def Let_def floor_rat_numeral)
  have "progress_value 2000 2500 = jsmul (jsdiv (Fin 2000) (Fin 2500)) (Fin 100)"
    by (simp only: progress_value_def Number_2000 Number_2500)
  also have "jsdiv (Fin 2000) (Fin 2500) = round_double (2000 / 2500)" by simp
  also have "\<dots> = Fin (3602879701896397 / 4503599627370496)" by (rule d)
  also have "jsmul (Fin (3602879701896397 / 4503599627370496)) (Fin 100)
      = round_double (3602879701896397 / 4503599627370496 * 100)"
    by (simp only: jsmul.simps)
  also have "\<dots> = Fin 80" by (rule m)
  finally show ?thesis .
qed

lemma progress_2501_2500:
  "progress_value 2501 2500 = Fin (3519844583766753 / 35184372088832)"
proof -
  have d: "round_double (2501 / 2500) = Fin (1126350266805361 / 1125899906842624)"
    by (rule round_double_eval [where k = 0 and m = 4505401067221444])
       (simp_all add: pow2_def round_half_even_def Let_def floor_rat_numeral)
  have m: "round_double (1126350266805361 / 1125899906842624 * 100)
      = Fin (3519844583766753 / 35184372088832)"
    by (rule round_double_eval [where k = 6 and m = 7039689167533506])
       (simp_all add: pow2_def round_half_even_def Let_def floor_rat_numeral)
  have "progress_value 2501 2500 = jsmul (jsdiv (Fin 2501) (Fin 2500)) (Fin 100)"
    by (simp only: progress_value_def Number_2501 Number_2500)
  also have "jsdiv (Fin 2501) (Fin 2500) = round_double (2501 / 2500)" by simp
  also have "\<dots> = Fin (1126350266805361 / 1125899906842624)" by (rule d)
  also have "jsmul (Fin (1126350266805361 / 1125899906842624)) (Fin 100)
      = round_double (1126350266805361 / 1125899906842624 * 100)"
    by (simp only: jsmul.simps)
  also have "\<dots> = Fin (3519844583766753 / 35184372088832)" by (rule m)
  finally show ?thesis .
qed

lemma Number_2_53_1: "Number_bigint (2 ^ 53 + 1) = Fin (2 ^ 53)"
  unfolding Number_bigint_def
  by (rule round_double_eval [where k = 53 and m = 4503599627370496])
     (simp_all add: pow2_def round_half_even_def Let_def floor_rat_numeral)

section \<open>The windows, effects and collections of a scan\<close>

lemma window_to_min: "window_to H f = min (f + 999) H"
  by (simp add: window_to_def batchSize_def Let_def min_def)

lemma queries_append: "queries (xs @ ys) = queries xs @ queries ys"
  by (induction xs rule: queries.induct) simp_all

lemma progress_events_append: "progress_events (xs @ ys) = progress_events xs @ progress_events ys"
  by (induction xs rule: progress_events.induct) simp_all

lemma logged_failures_append: "logged_failures (xs @ ys) = logged_failures xs @ logged_failures ys"
  by (induction xs rule: logged_failures.induct) simp_all

lemma failure_signals_append: "failure_signals (xs @ ys) = failure_signals xs @ failure_signals ys"
  by (induction xs rule: failure_signals.induct) simp_all

lemma queries_fetch_window: "queries (snd (fetch_window nd f t s)) = [(f, t)]"
  by (simp add: fetch_window_def split: sum.splits)

lemma progress_fetch_window: "progress_events (snd (fetch_window nd f t s)) = []"
  by (simp add: fetch_window_def split: sum.splits)

lemma signals_fetch_window: "failure_signals (snd (fetch_window nd f t s)) = []"
  by (simp add: fetch_window_def split: sum.splits)

lemma failures_fetch_window:
  "logged_failures (snd (fetch_window nd f t s)) = window_failure nd (f, t)"
  by (simp add: fetch_window_def window_failure_def split: sum.splits)

text \<open>
  What the loop queries, emits and logs depends on the height and on the node only: the
  windows are those of \<open>windows_from\<close>, whatever the queries return.
\<close>

lemma queries_scan_loop: "queries (snd (scan_loop nd H f s)) = windows_from H f"
proof (induction nd H f s rule: scan_loop.induct)
  case (1 nd H f s)
  show ?case
  proof (cases "f \<le> H")
    case True
    with 1 show ?thesis
      by (subst scan_loop.simps, subst windows_from.simps)
         (simp add: Let_def queries_append queries_fetch_window)
  next
    case False
    then show ?thesis
      by (subst scan_loop.simps, subst windows_from.simps) simp
  qed
qed

lemma progress_scan_loop:
  "progress_events (snd (scan_loop nd H f s)) =
     map (\<lambda>w. progress_value (snd w + 1) H) (windows_from H f)"
proof (induction nd H f s rule: scan_loop.induct)
  case (1 nd H f s)
  show ?case
  proof (cases "f \<le> H")
    case True
    with 1 show ?thesis
      by (subst scan_loop.simps, subst windows_from.simps)
         (simp add: Let_def progress_events_append progress_fetch_window)
  next
    case False
    then show ?thesis
      by (subst scan_loop.simps, subst windows_from.simps) simp
  qed
qed

lemma signals_scan_loop: "failure_signals (snd (scan_loop nd H f s)) = []"
proof (induction nd H f s rule: scan_loop.induct)
  case (1 nd H f s)
  show ?case
  proof (cases "f \<le> H")
    case True
    with 1 show ?thesis
      by (subst scan_loop.simps)
         (simp add: Let_def failure_signals_append signals_fetch_window)
  next
    case False
    then show ?thesis
      by (subst scan_loop.simps) simp
  qed
qed

lemma failures_scan_loop:
  "logged_failures (snd (scan_loop nd H f s)) =
     concat (map (window_failure nd) (windows_from H f))"
proof (induction nd H f s rule: scan_loop.induct)
  case (1 nd H f s)
  show ?case
  proof (cases "f \<le> H")
    case True
    with 1 show ?thesis
      by (subst scan_loop.simps, subst windows_from.simps)
         (simp add: Let_def logged_failures_append failures_fetch_window)
  next
    case False
    then show ?thesis
      by (subst scan_loop.simps, subst windows_from.simps) simp
  qed
qed

text \<open>The shape of the windows.\<close>

lemma windows_from_hd: "f \<le> H \<Longrightarrow> windows_from H f \<noteq> [] \<and> fst (hd (windows_from H f)) = f"
  by (subst (1 2) windows_from.simps) simp

lemma windows_from_empty: "H < f \<Longrightarrow> windows_from H f = []"
  by (subst windows_from.simps) simp

lemma windows_from_shape:
  "(f, t) \<in> set (windows_from H f0) \<Longrightarrow> f0 \<le> f \<and> t = min (f + 999) H \<and> f \<le> t"
proof (induction H f0 rule: windows_from.induct)
  case (1 H f0)
  show ?case
  proof (cases "f0 \<le> H")
    case True
    from "1.prems" True
    have "(f, t) = (f0, window_to H f0) \<or> (f, t) \<in> set (windows_from H (window_to H f0 + 1))"
      by (subst (asm) windows_from.simps) simp
    then show ?thesis
    proof
      assume "(f, t) = (f0, window_to H f0)"
      with True show ?thesis by (simp add: window_to_min)
    next
      assume "(f, t) \<in> set (windows_from H (window_to H f0 + 1))"
      from "1.IH" [OF True this] True show ?thesis
        by (auto simp: window_to_min min_def split: if_splits)
    qed
  next
    case False
    with "1.prems" show ?thesis by (simp add: windows_from_empty)
  qed
qed

lemma windows_from_contiguous:
  "Suc i < length (windows_from H f) \<Longrightarrow>
     fst (windows_from H f ! Suc i) = snd (windows_from H f ! i) + 1"
proof (induction H f arbitrary: i rule: windows_from.induct)
  case (1 H f)
  show ?case
  proof (cases "f \<le> H")
    case True
    let ?t = "window_to H f"
    have eq: "windows_from H f = (f, ?t) # windows_from H (?t + 1)"
      using True by (subst windows_from.simps) simp
    show ?thesis
    proof (cases i)
      case 0
      from "1.prems" eq have ne: "windows_from H (?t + 1) \<noteq> []" by auto
      then have "?t + 1 \<le> H" using windows_from_empty [of H "?t + 1"] by force
      from windows_from_hd [OF this] ne show ?thesis
        by (simp add: eq 0 hd_conv_nth)
    next
      case (Suc j)
      from "1.prems" have "Suc j < length (windows_from H (?t + 1))"
        by (simp add: eq Suc)
      from "1.IH" [OF True this] show ?thesis by (simp add: eq Suc)
    qed
  next
    case False
    with "1.prems" show ?thesis by (simp add: windows_from_empty)
  qed
qed

lemma windows_from_last: "f \<le> H \<Longrightarrow> snd (last (windows_from H f)) = H"
proof (induction H f rule: windows_from.induct)
  case (1 H f)
  let ?t = "window_to H f"
  have eq: "windows_from H f = (f, ?t) # windows_from H (?t + 1)"
    using "1.prems" by (subst windows_from.simps) simp
  show ?case
  proof (cases "?t + 1 \<le> H")
    case True
    from "1.IH" [OF "1.prems" True] windows_from_hd [OF True] show ?thesis
      by (simp add: eq)
  next
    case False
    with "1.prems" have "?t = H" by (simp add: window_to_min min_def split: if_splits)
    with False show ?thesis by (simp add: eq windows_from_empty)
  qed
qed

lemma length_windows_from: "length (windows_from H f) = nat ((H - f + 1000) div 1000)"
proof (induction H f rule: windows_from.induct)
  case (1 H f)
  show ?case
  proof (cases "f \<le> H")
    case True
    let ?t = "window_to H f"
    have eq: "windows_from H f = (f, ?t) # windows_from H (?t + 1)"
      using True by (subst windows_from.simps) simp
    have "length (windows_from H f) = Suc (nat ((H - (?t + 1) + 1000) div 1000))"
      using "1.IH" [OF True] by (simp add: eq)
    also have "\<dots> = nat ((H - f + 1000) div 1000)"
    proof (cases "f + 999 \<le> H")
      case True
      then have "0 \<le> (H - f) div 1000" by simp
      with True show ?thesis by (simp add: window_to_min min_def nat_add_distrib)
    next
      case False
      with True have "(H - f + 1000) div 1000 = 1" by simp
      with False True show ?thesis by (simp add: window_to_min min_def)
    qed
    finally show ?thesis .
  next
    case False
    then show ?thesis by (simp add: windows_from_empty)
  qed
qed


lemma ceil_windows: "\<lceil>real_of_int (H + 1) / 1000\<rceil> = H div 1000 + 1"
proof (rule ceiling_unique)
  let ?q = "H div 1000" and ?r = "H mod 1000"
  have "real_of_int (1000 * ?q + ?r) = real_of_int H" by (simp only: mult_div_mod_eq)
  then have e: "real_of_int H = 1000 * real_of_int ?q + real_of_int ?r"
    by (simp only: of_int_add of_int_mult of_int_numeral)
  have "0 \<le> ?r" "?r < 1000" by simp_all
  then have r': "0 \<le> real_of_int ?r" "real_of_int ?r < 1000" by linarith+
  show "real_of_int (?q + 1) - 1 < real_of_int (H + 1) / 1000"
    using r' e by simp
  show "real_of_int (H + 1) / 1000 \<le> real_of_int (?q + 1)"
    using r' e by simp
qed

text \<open>What \<open>forEach\<close> does to each collection.\<close>

lemma forEach_logs_append: "forEach_logs (xs @ ys) s = forEach_logs ys (forEach_logs xs s)"
  by (induction xs arbitrary: s) simp_all

lemma dispatch_log_progress: "dispatch_log l (s\<lparr>progress := p\<rparr>) = (dispatch_log l s)\<lparr>progress := p\<rparr>"
  by (cases l) simp_all

lemma forEach_logs_progress: "forEach_logs ls (s\<lparr>progress := p\<rparr>) = (forEach_logs ls s)\<lparr>progress := p\<rparr>"
  by (induction ls arbitrary: s) (simp_all add: dispatch_log_progress)

lemma depositLogs_forEach:
  "depositLogs (forEach_logs ls s) = depositLogs s @ [a. Deposit a \<leftarrow> ls]"
proof (induction ls arbitrary: s)
  case Nil
  show ?case by simp
next
  case (Cons l ls)
  show ?case by (cases l) (simp_all add: Cons.IH)
qed

lemma withdrawLogs_forEach:
  "withdrawLogs (forEach_logs ls s) = withdrawLogs s @ [a. Withdrawal a \<leftarrow> ls]"
proof (induction ls arbitrary: s)
  case Nil
  show ?case by simp
next
  case (Cons l ls)
  show ?case by (cases l) (simp_all add: Cons.IH)
qed

lemma withdrawFillerLogs_forEach:
  "withdrawFillerLogs (forEach_logs ls s) =
     fold (\<lambda>a m. m(Number_arg (withdrawId a) \<mapsto> Number_arg (withdrawFillerId a)))
          [a. WithdrawFillerDeclared a \<leftarrow> ls] (withdrawFillerLogs s)"
proof (induction ls arbitrary: s)
  case Nil
  show ?case by simp
next
  case (Cons l ls)
  show ?case by (cases l) (simp_all add: Cons.IH)
qed

lemma other_fields_forEach:
  "isLoaded (forEach_logs ls s) = isLoaded s"
  "progress (forEach_logs ls s) = progress s"
  "isSettingsOpen (forEach_logs ls s) = isSettingsOpen s"
proof (induction ls arbitrary: s)
  case Nil
  { case 1 show ?case by simp next case 2 show ?case by simp next case 3 show ?case by simp }
next
  case (Cons l ls)
  { case 1 show ?case by (cases l) (simp_all add: Cons.IH)
  next case 2 show ?case by (cases l) (simp_all add: Cons.IH)
  next case 3 show ?case by (cases l) (simp_all add: Cons.IH) }
qed

lemma partition_by_kind:
  "length [a. Deposit a \<leftarrow> ls] + length [a. Withdrawal a \<leftarrow> ls]
     + length [a. WithdrawFillerDeclared a \<leftarrow> ls] = length ls"
proof (induction ls)
  case Nil
  show ?case by simp
next
  case (Cons l ls)
  then show ?case by (cases l) simp_all
qed

lemma fst_fetch_window: "fst (fetch_window nd f t s) = forEach_logs (window_logs nd (f, t)) s"
  by (simp add: fetch_window_def window_logs_def split: sum.splits)

lemma fst_scan_loop:
  "\<exists>p. fst (scan_loop nd H f s)
        = (forEach_logs (concat (map (window_logs nd) (windows_from H f))) s)\<lparr>progress := p\<rparr>"
proof (induction nd H f s rule: scan_loop.induct)
  case (1 nd H f s)
  show ?case
  proof (cases "f \<le> H")
    case True
    let ?t = "window_to H f"
    let ?p = "progress_value (?t + 1) H"
    let ?s1 = "(fst (fetch_window nd f ?t s))\<lparr>progress := ?p\<rparr>"
    from "1.IH" [OF True refl refl refl]
    obtain p where p: "fst (scan_loop nd H (?t + 1) ?s1)
        = (forEach_logs (concat (map (window_logs nd) (windows_from H (?t + 1)))) ?s1)\<lparr>progress := p\<rparr>"
      by blast
    have "fst (scan_loop nd H f s) = fst (scan_loop nd H (?t + 1) ?s1)"
      using True by (subst scan_loop.simps) (simp add: Let_def)
    also have "\<dots> = (forEach_logs (concat (map (window_logs nd) (windows_from H f))) s)\<lparr>progress := p\<rparr>"
      using True
      by (subst windows_from.simps)
         (simp add: p [unfolded fst_fetch_window] fst_fetch_window forEach_logs_append
            forEach_logs_progress)
    finally show ?thesis by blast
  next
    case False
    then have "fst (scan_loop nd H f s) = s\<lparr>progress := progress s\<rparr>"
      by (subst scan_loop.simps) simp
    with False have "fst (scan_loop nd H f s)
        = (forEach_logs (concat (map (window_logs nd) (windows_from H f))) s)\<lparr>progress := progress s\<rparr>"
      by (simp add: windows_from_empty)
    then show ?thesis by blast
  qed
qed

lemma windows_from_distinct: "distinct (windows_from H f)"
proof (induction H f rule: windows_from.induct)
  case (1 H f)
  show ?case
  proof (cases "f \<le> H")
    case True
    let ?t = "window_to H f"
    have eq: "windows_from H f = (f, ?t) # windows_from H (?t + 1)"
      using True by (subst windows_from.simps) simp
    have "(f, ?t) \<notin> set (windows_from H (?t + 1))"
    proof
      assume "(f, ?t) \<in> set (windows_from H (?t + 1))"
      from windows_from_shape [OF this] True show False
        by (simp add: window_to_min min_def split: if_splits)
    qed
    with "1.IH" [OF True] show ?thesis by (simp add: eq)
  next
    case False
    then show ?thesis by (simp add: windows_from_empty)
  qed
qed

lemma queries_fetchResources:
  "getBlockNumber nd = Inr H \<Longrightarrow> queries (snd (fetchResources nd s)) = windows_from H 0"
  by (simp add: fetchResources_def Let_def queries_append queries_scan_loop)

lemma progress_fetchResources:
  "getBlockNumber nd = Inr H \<Longrightarrow>
     progress_events (snd (fetchResources nd s)) =
       map (\<lambda>w. progress_value (snd w + 1) H) (windows_from H 0)"
  by (simp add: fetchResources_def Let_def progress_events_append progress_scan_loop)

lemma failures_fetchResources:
  "getBlockNumber nd = Inr H \<Longrightarrow>
     logged_failures (snd (fetchResources nd s)) =
       concat (map (window_failure nd) (windows_from H 0))"
  by (simp add: fetchResources_def Let_def logged_failures_append failures_scan_loop)

lemma signals_fetchResources:
  "getBlockNumber nd = Inr H \<Longrightarrow> failure_signals (snd (fetchResources nd s)) = []"
  by (simp add: fetchResources_def Let_def failure_signals_append signals_scan_loop)


lemma windows_from_before_last:
  assumes "Suc i < length (windows_from H f)" and "0 \<le> f"
  shows "0 \<le> snd (windows_from H f ! i) + 1 \<and> snd (windows_from H f ! i) + 1 \<le> H"
proof -
  let ?ws = "windows_from H f"
  from assms(1) have "?ws ! Suc i \<in> set ?ws" by (intro nth_mem) simp
  then have "(fst (?ws ! Suc i), snd (?ws ! Suc i)) \<in> set ?ws" by simp
  from windows_from_shape [OF this]
  have "f \<le> fst (?ws ! Suc i)" "fst (?ws ! Suc i) \<le> H" by (simp_all add: min_def split: if_splits)
  with windows_from_contiguous [OF assms(1)] assms(2) show ?thesis by simp
qed

lemma windows_2500: "windows_from 2500 0 = [(0, 999), (1000, 1999), (2000, 2500)]"
  by (simp add: windows_from.simps window_to_min)

lemma windows_1: "windows_from 1 0 = [(0, 1)]"
  by (simp add: windows_from.simps window_to_min)

lemma windows_0: "windows_from 0 0 = [(0, 0)]"
  by (simp add: windows_from.simps window_to_min)

subsection \<open>Monotonicity of the progress value\<close>

lemma js_le_PosInf: "js_le (Fin 0) y \<Longrightarrow> js_le y PosInf"
  by (cases y) simp_all

lemma round_double_nonneg: "0 \<le> x \<Longrightarrow> js_le (Fin 0) (round_double x)"
  using round_double_nonneg_cases [of x] by auto

lemma jsdiv_mono:
  assumes "js_le (Fin 0) y1" and "js_le y1 y2" and "0 < b"
  shows "js_le (Fin 0) (jsdiv y1 (Fin b)) \<and> js_le (jsdiv y1 (Fin b)) (jsdiv y2 (Fin b))"
proof (cases y1)
  case (Fin a1)
  with assms(1) have a1: "0 \<le> a1" by simp
  then have q1: "0 \<le> a1 / b" using assms(3) by simp
  have d1: "jsdiv y1 (Fin b) = round_double (a1 / b)" using assms(3) Fin by simp
  show ?thesis
  proof (cases y2)
    case (Fin a2)
    with assms(2) \<open>y1 = Fin a1\<close> have "a1 \<le> a2" by simp
    then have "a1 / b \<le> a2 / b" using assms(3) by (simp add: divide_right_mono)
    from round_double_mono [OF q1 this] round_double_nonneg [OF q1] show ?thesis
      using assms(3) Fin by (simp add: d1)
  next
    case PosInf
    from round_double_nonneg [OF q1] js_le_PosInf [OF round_double_nonneg [OF q1]] show ?thesis
      using assms(3) PosInf by (simp add: d1)
  qed (use assms(2) Fin in simp_all)
next
  case PosInf
  with assms(2) have "y2 = PosInf" by (cases y2) simp_all
  with PosInf assms(3) show ?thesis by simp
qed (use assms(1) in simp_all)

lemma jsmul_100_mono:
  assumes "js_le (Fin 0) y1" and "js_le y1 y2"
  shows "js_le (jsmul y1 (Fin 100)) (jsmul y2 (Fin 100))"
proof (cases y1)
  case (Fin a1)
  with assms(1) have a1: "0 \<le> a1" by simp
  then have q1: "0 \<le> a1 * 100" by simp
  show ?thesis
  proof (cases y2)
    case (Fin a2)
    with assms(2) \<open>y1 = Fin a1\<close> have "a1 * 100 \<le> a2 * 100" by simp
    from round_double_mono [OF q1 this] show ?thesis using Fin \<open>y1 = Fin a1\<close> by simp
  next
    case PosInf
    from js_le_PosInf [OF round_double_nonneg [OF q1]] show ?thesis
      using PosInf \<open>y1 = Fin a1\<close> by (simp add: inf_of_sign_def)
  qed (use assms(2) Fin in simp_all)
next
  case PosInf
  with assms(2) have "y2 = PosInf" by (cases y2) simp_all
  with PosInf show ?thesis by (simp add: inf_of_sign_def)
qed (use assms(1) in simp_all)

lemma progress_value_mono:
  assumes "0 \<le> f1" and "f1 \<le> f2" and "0 < H" and "Number_bigint H \<noteq> PosInf"
  shows "js_le (progress_value f1 H) (progress_value f2 H)"
proof -
  have H0: "(0::rat) \<le> of_int H" using assms(3) by simp
  from round_double_nonneg_cases [OF H0] assms(4)
  obtain b where b: "Number_bigint H = Fin b"
    unfolding Number_bigint_def by blast
  have "js_le (round_double 1) (round_double (of_int H))"
    using assms(3) by (intro round_double_mono) simp_all
  then have b1: "0 < b" using b by (simp add: round_double_1 Number_bigint_def)
  have n1: "js_le (Fin 0) (Number_bigint f1)"
    unfolding Number_bigint_def using assms(1) by (intro round_double_nonneg) simp
  have n12: "js_le (Number_bigint f1) (Number_bigint f2)"
    unfolding Number_bigint_def using assms(1,2) by (intro round_double_mono) simp_all
  from jsdiv_mono [OF n1 n12 b1] jsmul_100_mono show ?thesis
    by (simp add: progress_value_def b)
qed

lemma windows_from_ascending:
  "0 \<le> f \<Longrightarrow> sorted_wrt (\<lambda>w w'. 0 \<le> snd w + 1 \<and> snd w + 1 \<le> snd w' + 1) (windows_from H f)"
proof (induction H f rule: windows_from.induct)
  case (1 H f)
  show ?case
  proof (cases "f \<le> H")
    case True
    let ?t = "window_to H f"
    have eq: "windows_from H f = (f, ?t) # windows_from H (?t + 1)"
      using True by (subst windows_from.simps) simp
    have t: "f \<le> ?t" using True by (simp add: window_to_min)
    have "0 \<le> ?t + 1 \<and> ?t + 1 \<le> snd w + 1" if "w \<in> set (windows_from H (?t + 1))" for w
    proof -
      from that have "(fst w, snd w) \<in> set (windows_from H (?t + 1))" by simp
      from windows_from_shape [OF this] t "1.prems" show ?thesis by linarith
    qed
    moreover from t "1.prems" have "0 \<le> ?t + 1" by simp
    from "1.IH" [OF True this]
    have "sorted_wrt (\<lambda>w w'. 0 \<le> snd w + 1 \<and> snd w + 1 \<le> snd w' + 1) (windows_from H (?t + 1))" .
    ultimately show ?thesis by (simp add: eq)
  next
    case False
    then show ?thesis by (simp add: windows_from_empty)
  qed
qed

text \<open>
  Within one scan the emitted progress values never decrease, the value after the last
  window included.
\<close>

lemma progress_monotone:
  assumes "getBlockNumber nd = Inr H" and "0 < H" and "Number_bigint H \<noteq> PosInf"
  shows "sorted_wrt js_le (progress_events (snd (fetchResources nd s)))"
proof -
  have "sorted_wrt (\<lambda>w w'. js_le (progress_value (snd w + 1) H) (progress_value (snd w' + 1) H))
          (windows_from H 0)"
    using windows_from_ascending [OF order_refl, of H]
    by (rule sorted_wrt_mono_rel [rotated]) (blast intro: progress_value_mono [OF _ _ assms(2,3)])
  then show ?thesis
    by (simp add: progress_fetchResources [OF assms(1)] sorted_wrt_map)
qed

subsection \<open>The collections after a run\<close>

lemma fetchResources_state:
  "\<exists>p l. fst (fetchResources nd s)
     = (forEach_logs (fetched_logs nd) s)\<lparr>progress := p, isLoaded := l\<rparr>"
proof (cases "getBlockNumber nd")
  case (Inl err)
  then have "fst (fetchResources nd s)
      = (forEach_logs (fetched_logs nd) s)\<lparr>progress := progress s, isLoaded := False\<rparr>"
    by (simp add: fetchResources_def fetched_logs_def)
  then show ?thesis by blast
next
  case (Inr H)
  from fst_scan_loop [of nd H 0 "s\<lparr>isLoaded := False\<rparr>"]
  obtain p where p: "fst (scan_loop nd H 0 (s\<lparr>isLoaded := False\<rparr>))
      = (forEach_logs (concat (map (window_logs nd) (windows_from H 0))) (s\<lparr>isLoaded := False\<rparr>))\<lparr>progress := p\<rparr>"
    by blast
  have l: "forEach_logs ls (s\<lparr>isLoaded := False\<rparr>) = (forEach_logs ls s)\<lparr>isLoaded := False\<rparr>" for ls
  proof (induction ls arbitrary: s)
    case Nil
    show ?case by simp
  next
    case (Cons x xs)
    have "dispatch_log x (s\<lparr>isLoaded := False\<rparr>) = (dispatch_log x s)\<lparr>isLoaded := False\<rparr>"
      by (cases x) simp_all
    then show ?case by (simp add: Cons.IH)
  qed
  have "fst (fetchResources nd s)
      = (forEach_logs (fetched_logs nd) s)\<lparr>progress := p, isLoaded := True\<rparr>"
    using Inr by (simp add: fetchResources_def fetched_logs_def Let_def p l)
  then show ?thesis by blast
qed

lemma depositLogs_fetchResources:
  "depositLogs (fst (fetchResources nd s)) = depositLogs s @ [a. Deposit a \<leftarrow> fetched_logs nd]"
proof -
  from fetchResources_state [of nd s] obtain p l where
    "fst (fetchResources nd s) = (forEach_logs (fetched_logs nd) s)\<lparr>progress := p, isLoaded := l\<rparr>"
    by blast
  then show ?thesis by (simp add: depositLogs_forEach)
qed

lemma withdrawLogs_fetchResources:
  "withdrawLogs (fst (fetchResources nd s)) = withdrawLogs s @ [a. Withdrawal a \<leftarrow> fetched_logs nd]"
proof -
  from fetchResources_state [of nd s] obtain p l where
    "fst (fetchResources nd s) = (forEach_logs (fetched_logs nd) s)\<lparr>progress := p, isLoaded := l\<rparr>"
    by blast
  then show ?thesis by (simp add: withdrawLogs_forEach)
qed

lemma withdrawFillerLogs_fetchResources:
  "withdrawFillerLogs (fst (fetchResources nd s)) =
     fold (\<lambda>a m. m(Number_arg (withdrawId a) \<mapsto> Number_arg (withdrawFillerId a)))
          [a. WithdrawFillerDeclared a \<leftarrow> fetched_logs nd] (withdrawFillerLogs s)"
proof -
  from fetchResources_state [of nd s] obtain p l where
    "fst (fetchResources nd s) = (forEach_logs (fetched_logs nd) s)\<lparr>progress := p, isLoaded := l\<rparr>"
    by blast
  then show ?thesis by (simp add: withdrawFillerLogs_forEach)
qed

lemma fold_upsert_lookup:
  "fold (\<lambda>a m. m(key a \<mapsto> val a)) xs m k =
     (case find (\<lambda>a. key a = k) (rev xs) of Some a \<Rightarrow> Some (val a) | None \<Rightarrow> m k)"
proof (induction xs rule: rev_induct)
  case Nil
  show ?case by simp
next
  case (snoc x xs)
  then show ?case by simp
qed

lemma Number_arg_inj:
  assumes "uint w1 \<le> 2 ^ 53" and "uint w2 \<le> 2 ^ 53" and "w1 \<noteq> w2"
  shows "Number_arg (Some w1) \<noteq> Number_arg (Some w2)"
proof -
  have p1: "0 \<le> uint w1" and p2: "0 \<le> uint w2" by simp_all
  have n1: "Number_arg (Some w1) = Fin (of_int (uint w1))"
    by (simp only: Number_arg_def option.case Number_bigint_exact [OF p1 assms(1)])
  have n2: "Number_arg (Some w2) = Fin (of_int (uint w2))"
    by (simp only: Number_arg_def option.case Number_bigint_exact [OF p2 assms(2)])
  from assms(3) have ne: "uint w1 \<noteq> uint w2" using word_uint_eqI by blast
  show ?thesis unfolding n1 n2 using ne by (simp only: jsnum.inject of_int_eq_iff) simp
qed

lemma fetched_logs_bridge: "fetched_logs (bridge_node ls) = ls"
  by (simp add: fetched_logs_def bridge_node_def windows_0 window_logs_def)

lemma Number_arg_exact:
  "uint w \<le> 2 ^ 53 \<Longrightarrow> Number_arg (Some w) = Fin (of_int (uint w))"
  using Number_bigint_exact [of "uint w"] by (simp add: Number_arg_def)

lemma Number_arg_2_53_1: "Number_arg (Some 9007199254740993) = Fin 9007199254740992"
  using Number_2_53_1 by (simp add: Number_arg_def)

section \<open>Reversing the byte pairs of a hex string\<close>

lemma hex_digit_no_terminator: "is_hex_digit c \<Longrightarrow> \<not> is_line_terminator c"
  by (auto simp: is_hex_digit_def is_line_terminator_def)

lemma hex_string_no_terminator: "hex_string s \<Longrightarrow> no_terminator s"
  by (induction s) (simp_all add: hex_string_def no_terminator_def hex_digit_no_terminator)

lemma hex_string_no_prefix: "hex_string s \<Longrightarrow> \<not> startsWith s ''0x''"
proof
  assume h: "hex_string s" and p: "startsWith s ''0x''"
  from p obtain t where "s = CHR ''0'' # CHR ''x'' # t"
    by (cases s; cases "tl s") (auto simp: startsWith_def)
  with h show False by (simp add: hex_string_def is_hex_digit_def)
qed

lemma reverseHex_cleaned:
  "reverseHex s = concat (rev (match_pairs (if startsWith s ''0x'' then drop 2 s else s)))"
  by (cases "match_pairs (if startsWith s ''0x'' then drop 2 s else s)")
     (simp_all add: reverseHex_def js_match_def Let_def)

lemma reverseHex_plain: "hex_string h \<Longrightarrow> reverseHex h = concat (rev (match_pairs h))"
  by (simp add: reverseHex_cleaned hex_string_no_prefix)

lemma reverseHex_prefixed: "reverseHex (''0x'' @ h) = concat (rev (match_pairs h))"
  by (simp add: reverseHex_cleaned startsWith_def)

lemma concat_match_pairs: "no_terminator h \<Longrightarrow> concat (match_pairs h) = h"
  by (induction h rule: match_pairs.induct) (simp_all add: no_terminator_def)

lemma set_concat_rev: "set (concat (rev xs)) = set (concat xs)"
  by (induction xs) auto

lemma length_reversed: "no_terminator h \<Longrightarrow> length (concat (rev (match_pairs h))) = length h"
  by (simp add: concat_match_pairs)

lemma reversed_nth:
  assumes "no_terminator h" and "even (length h)" and "i < length h div 2"
  shows "concat (rev (match_pairs h)) ! (2 * i) = h ! (length h - 2 - 2 * i)
       \<and> concat (rev (match_pairs h)) ! (2 * i + 1) = h ! (length h - 1 - 2 * i)"
  using assms
proof (induction h arbitrary: i rule: match_pairs.induct)
  case 1
  then show ?case by simp
next
  case (2 c)
  then show ?case by simp
next
  case (3 c d cs)
  let ?r = "concat (rev (match_pairs cs))"
  let ?n = "length cs"
  from "3.prems"(1) have nt: "\<not> is_line_terminator c" "\<not> is_line_terminator d" "no_terminator cs"
    by (simp_all add: no_terminator_def)
  from "3.prems"(2) have ev: "even ?n" by simp
  have len: "length ?r = ?n" by (rule length_reversed [OF nt(3)])
  have eq: "concat (rev (match_pairs (c # d # cs))) = ?r @ [c, d]"
    using nt by simp
  show ?case
  proof (cases "i < ?n div 2")
    case True
    from "3.IH"(3) [OF nt(1) nt(2) nt(3) ev True]
    have ih: "?r ! (2 * i) = cs ! (?n - 2 - 2 * i)" "?r ! (2 * i + 1) = cs ! (?n - 1 - 2 * i)"
      by simp_all
    from True ev have b: "2 * i + 2 \<le> ?n" by (auto elim!: evenE)
    then have "2 * i < length ?r" "2 * i + 1 < length ?r" by (simp_all only: len)
    then have a1: "(?r @ [c, d]) ! (2 * i) = ?r ! (2 * i)"
      and a2: "(?r @ [c, d]) ! (2 * i + 1) = ?r ! (2 * i + 1)"
      by (simp_all only: nth_append if_True)
    from b have "(c # d # cs) ! (length (c # d # cs) - 2 - 2 * i) = cs ! (?n - 2 - 2 * i)"
      by (simp add: nth_Cons')
    moreover from b have "(c # d # cs) ! (length (c # d # cs) - 1 - 2 * i) = cs ! (?n - 1 - 2 * i)"
      by (simp add: nth_Cons')
    ultimately show ?thesis by (simp only: eq a1 a2 ih)
  next
    case False
    with "3.prems"(3) have "i = ?n div 2" by simp
    with ev have i: "2 * i = ?n" by (auto elim!: evenE)
    have "(?r @ [c, d]) ! (length ?r) = c" "(?r @ [c, d]) ! (length ?r + 1) = d"
      by (simp_all only: nth_append_length nth_append_length_plus) simp_all
    then have "(?r @ [c, d]) ! (2 * i) = c" "(?r @ [c, d]) ! (2 * i + 1) = d"
      by (simp_all only: len i)
    moreover have "(c # d # cs) ! (length (c # d # cs) - 2 - 2 * i) = c"
      "(c # d # cs) ! (length (c # d # cs) - 1 - 2 * i) = d"
      by (simp_all add: i)
    ultimately show ?thesis by (simp only: eq)
  qed
qed

lemma match_pairs_concat:
  "\<forall>p \<in> set ps. length p = 2 \<and> no_terminator p \<Longrightarrow> match_pairs (concat ps) = ps"
proof (induction ps)
  case Nil
  show ?case by simp
next
  case (Cons p ps)
  from Cons.prems have l: "length p = 2" and n: "no_terminator p" by simp_all
  from l obtain a b where p: "p = [a, b]"
    by (auto simp: numeral_2_eq_2 length_Suc_conv)
  from n have t: "\<not> is_line_terminator a" "\<not> is_line_terminator b"
    by (simp_all add: p no_terminator_def)
  from Cons.prems have "\<forall>q \<in> set ps. length q = 2 \<and> no_terminator q" by simp
  then have ih: "match_pairs (concat ps) = ps" by (rule Cons.IH)
  have "match_pairs (concat (p # ps)) = match_pairs (a # b # concat ps)" by (simp add: p)
  also have "\<dots> = [a, b] # match_pairs (concat ps)" using t by simp
  finally show ?case by (simp only: ih p)
qed

lemma match_pairs_chunks:
  "no_terminator h \<Longrightarrow> even (length h) \<Longrightarrow>
     \<forall>p \<in> set (match_pairs h). length p = 2 \<and> no_terminator p"
proof (induction h rule: match_pairs.induct)
  case 1
  show ?case by simp
next
  case (2 c)
  then show ?case by simp
next
  case (3 c d cs)
  from "3.prems"(1) have nt: "\<not> is_line_terminator c" "\<not> is_line_terminator d" "no_terminator cs"
    by (simp_all add: no_terminator_def)
  from "3.prems"(2) have ev: "even (length cs)" by simp
  have eq: "match_pairs (c # d # cs) = [c, d] # match_pairs cs" using nt by simp
  from "3.IH"(3) [OF nt(1) nt(2) nt(3) ev]
  have "\<forall>p \<in> set (match_pairs cs). length p = 2 \<and> no_terminator p" .
  moreover have "length [c, d] = 2 \<and> no_terminator [c, d]"
    using nt by (simp add: no_terminator_def)
  ultimately show ?case by (simp only: eq set_simps ball_simps) 
qed

lemma reversed_twice:
  assumes "no_terminator h" and "even (length h)"
  shows "concat (rev (match_pairs (concat (rev (match_pairs h))))) = h"
proof -
  from match_pairs_chunks [OF assms]
  have "\<forall>p \<in> set (rev (match_pairs h)). length p = 2 \<and> no_terminator p" by simp
  then have "match_pairs (concat (rev (match_pairs h))) = rev (match_pairs h)"
    by (rule match_pairs_concat)
  then show ?thesis by (simp add: concat_match_pairs [OF assms(1)])
qed

lemma hex_string_reversed: "hex_string h \<Longrightarrow> hex_string (concat (rev (match_pairs h)))"
proof -
  assume h: "hex_string h"
  have "set (concat (rev (match_pairs h))) = set h"
    by (simp only: set_concat_rev concat_match_pairs [OF hex_string_no_terminator [OF h]])
  with h show ?thesis by (simp add: hex_string_def list_all_iff)
qed

section \<open>Dispatch of the logs of a window\<close>

text \<open>
  C1. When the query of a window succeeds, every log entry it returns goes to exactly one
  collection, chosen by its event name: the deposits of the window are appended to
  \<open>depositLogs\<close> and its withdrawals to \<open>withdrawLogs\<close>, both in the order of the
  response, and its filler declarations are written into \<open>withdrawFillerLogs\<close> one after
  the other. The three kinds partition the response, so no entry is dropped and none is
  counted twice; a single entry changes its own collection and leaves the other two as
  they were.
\<close>

theorem window_dispatch:
  assumes "getLogs nd f t = Inr logs"
  shows "depositLogs (fst (fetch_window nd f t s)) = depositLogs s @ [a. Deposit a \<leftarrow> logs]
       \<and> withdrawLogs (fst (fetch_window nd f t s)) = withdrawLogs s @ [a. Withdrawal a \<leftarrow> logs]
       \<and> withdrawFillerLogs (fst (fetch_window nd f t s)) =
           fold (\<lambda>a m. m(Number_arg (withdrawId a) \<mapsto> Number_arg (withdrawFillerId a)))
                [a. WithdrawFillerDeclared a \<leftarrow> logs] (withdrawFillerLogs s)
       \<and> length [a. Deposit a \<leftarrow> logs] + length [a. Withdrawal a \<leftarrow> logs]
           + length [a. WithdrawFillerDeclared a \<leftarrow> logs] = length logs
       \<and> (case l of
             Deposit a \<Rightarrow>
               depositLogs (dispatch_log l s) = depositLogs s @ [a]
               \<and> withdrawLogs (dispatch_log l s) = withdrawLogs s
               \<and> withdrawFillerLogs (dispatch_log l s) = withdrawFillerLogs s
           | Withdrawal a \<Rightarrow>
               depositLogs (dispatch_log l s) = depositLogs s
               \<and> withdrawLogs (dispatch_log l s) = withdrawLogs s @ [a]
               \<and> withdrawFillerLogs (dispatch_log l s) = withdrawFillerLogs s
           | WithdrawFillerDeclared a \<Rightarrow>
               depositLogs (dispatch_log l s) = depositLogs s
               \<and> withdrawLogs (dispatch_log l s) = withdrawLogs s
               \<and> withdrawFillerLogs (dispatch_log l s) =
                   (withdrawFillerLogs s)(Number_arg (withdrawId a) \<mapsto>
                                            Number_arg (withdrawFillerId a)))"
proof -
  have w: "fst (fetch_window nd f t s) = forEach_logs logs s"
    using assms by (simp add: fetch_window_def)
  have "case l of
             Deposit a \<Rightarrow>
               depositLogs (dispatch_log l s) = depositLogs s @ [a]
               \<and> withdrawLogs (dispatch_log l s) = withdrawLogs s
               \<and> withdrawFillerLogs (dispatch_log l s) = withdrawFillerLogs s
           | Withdrawal a \<Rightarrow>
               depositLogs (dispatch_log l s) = depositLogs s
               \<and> withdrawLogs (dispatch_log l s) = withdrawLogs s @ [a]
               \<and> withdrawFillerLogs (dispatch_log l s) = withdrawFillerLogs s
           | WithdrawFillerDeclared a \<Rightarrow>
               depositLogs (dispatch_log l s) = depositLogs s
               \<and> withdrawLogs (dispatch_log l s) = withdrawLogs s
               \<and> withdrawFillerLogs (dispatch_log l s) =
                   (withdrawFillerLogs s)(Number_arg (withdrawId a) \<mapsto>
                                            Number_arg (withdrawFillerId a))"
    by (cases l) simp_all
  then show ?thesis
    unfolding w
    using depositLogs_forEach [of logs s] withdrawLogs_forEach [of logs s]
      withdrawFillerLogs_forEach [of logs s] partition_by_kind [of logs]
    by blast
qed

theorem window_dispatch_witness:
  "getLogs (bridge_node [Deposit deposit_a, WithdrawFillerDeclared (filler_decl 3 9),
                         Withdrawal withdrawal_a]) 0 0
     = Inr [Deposit deposit_a, WithdrawFillerDeclared (filler_decl 3 9), Withdrawal withdrawal_a]
   \<and> depositLogs (fst (fetch_window
         (bridge_node [Deposit deposit_a, WithdrawFillerDeclared (filler_decl 3 9),
                       Withdrawal withdrawal_a]) 0 0 initial_state)) = [deposit_a]
   \<and> withdrawLogs (fst (fetch_window
         (bridge_node [Deposit deposit_a, WithdrawFillerDeclared (filler_decl 3 9),
                       Withdrawal withdrawal_a]) 0 0 initial_state)) = [withdrawal_a]
   \<and> withdrawFillerLogs (fst (fetch_window
         (bridge_node [Deposit deposit_a, WithdrawFillerDeclared (filler_decl 3 9),
                       Withdrawal withdrawal_a]) 0 0 initial_state)) (Number_arg (Some 3))
       = Some (Number_arg (Some 9))"
proof -
  let ?logs = "[Deposit deposit_a, WithdrawFillerDeclared (filler_decl 3 9),
                Withdrawal withdrawal_a]"
  have h: "getLogs (bridge_node ?logs) 0 0 = Inr ?logs"
    by (simp add: bridge_node_def)
  from window_dispatch [OF h, of initial_state "Deposit deposit_a"] h
  show ?thesis
    by (simp add: initial_state_def filler_decl_def)
qed

section \<open>The windows of a scan\<close>

text \<open>
  C2. For a chain height \<open>H \<ge> 0\<close> the scan queries the windows
  \<open>[from, min (from + 999) H]\<close>: the first starts at block 0, each window holds at most
  1000 blocks, each next window starts one block after the end of the one before it, and
  the last window ends at \<open>H\<close>, so the loop stops with the cursor above \<open>H\<close>.
\<close>

theorem scan_windows:
  assumes "getBlockNumber nd = Inr H" and "0 \<le> H"
  shows "let ws = queries (snd (fetchResources nd s)) in
           ws \<noteq> [] \<and> fst (hd ws) = 0
         \<and> (\<forall>w \<in> set ws. snd w = min (fst w + 999) H \<and> fst w \<le> snd w
                          \<and> snd w - fst w + 1 \<le> 1000)
         \<and> (\<forall>i. Suc i < length ws \<longrightarrow> fst (ws ! Suc i) = snd (ws ! i) + 1)
         \<and> snd (last ws) = H"
proof -
  have q: "queries (snd (fetchResources nd s)) = windows_from H 0"
    using assms(1) by (rule queries_fetchResources)
  have shape: "snd w = min (fst w + 999) H \<and> fst w \<le> snd w \<and> snd w - fst w + 1 \<le> 1000"
    if "w \<in> set (windows_from H 0)" for w
  proof -
    from that have "(fst w, snd w) \<in> set (windows_from H 0)" by simp
    from windows_from_shape [OF this] show ?thesis by (simp add: min_def split: if_splits)
  qed
  show ?thesis
    unfolding q Let_def
    using windows_from_hd [OF assms(2)] shape windows_from_contiguous [of _ H 0]
      windows_from_last [OF assms(2)]
    by blast
qed

theorem scan_windows_witness:
  "getBlockNumber (flaky_node 2500) = Inr 2500 \<and> (0::int) \<le> 2500
   \<and> queries (snd (fetchResources (flaky_node 2500) initial_state))
       = [(0, 999), (1000, 1999), (2000, 2500)]
   \<and> (let ws = queries (snd (fetchResources (flaky_node 2500) initial_state)) in
           ws \<noteq> [] \<and> fst (hd ws) = 0
         \<and> (\<forall>w \<in> set ws. snd w = min (fst w + 999) 2500 \<and> fst w \<le> snd w
                          \<and> snd w - fst w + 1 \<le> 1000)
         \<and> (\<forall>i. Suc i < length ws \<longrightarrow> fst (ws ! Suc i) = snd (ws ! i) + 1)
         \<and> snd (last ws) = 2500)"
proof -
  have h1: "getBlockNumber (flaky_node 2500) = Inr 2500"
    by (simp add: flaky_node_def)
  have h2: "(0::int) \<le> 2500" by simp
  have c: "queries (snd (fetchResources (flaky_node 2500) initial_state))
       = [(0, 999), (1000, 1999), (2000, 2500)]"
    by (simp add: queries_fetchResources [OF h1] windows_from.simps window_to_min)
  from h1 h2 c scan_windows [OF h1 h2, of initial_state] show ?thesis by blast
qed

text \<open>
  C7. For a chain height \<open>H \<ge> 0\<close> the scan issues exactly \<open>ceil ((H + 1) / 1000)\<close> log
  queries and emits as many progress values.
\<close>

theorem window_count:
  assumes "getBlockNumber nd = Inr H" and "0 \<le> H"
  shows "length (queries (snd (fetchResources nd s))) = nat \<lceil>real_of_int (H + 1) / 1000\<rceil>
       \<and> length (progress_events (snd (fetchResources nd s))) = nat \<lceil>real_of_int (H + 1) / 1000\<rceil>"
proof -
  have "length (windows_from H 0) = nat (H div 1000 + 1)"
    by (simp add: length_windows_from)
  then have "length (windows_from H 0) = nat \<lceil>real_of_int (H + 1) / 1000\<rceil>"
    by (simp only: ceil_windows)
  then show ?thesis
    by (simp only: queries_fetchResources [OF assms(1)] progress_fetchResources [OF assms(1)]
          length_map)
qed

theorem window_count_witness:
  "getBlockNumber (quiet_node 2500) = Inr 2500 \<and> (0::int) \<le> 2500
   \<and> length (queries (snd (fetchResources (quiet_node 2500) initial_state))) = 3
   \<and> length (progress_events (snd (fetchResources (quiet_node 2500) initial_state))) = 3"
proof -
  have h1: "getBlockNumber (quiet_node 2500) = Inr 2500"
    by (simp add: quiet_node_def)
  have h2: "(0::int) \<le> 2500" by simp
  have c: "nat \<lceil>real_of_int (2500 + 1) / 1000\<rceil> = 3" by simp
  from window_count [OF h1 h2, of initial_state] h1 h2 show ?thesis
    by (simp only: c)
qed

section \<open>Failures\<close>

text \<open>
  C5. When the log query of a window rejects, the error is logged for that window and
  nothing else happens to it: the collections stay as they were, the window is queried
  once and not again, and the scan goes on with the next window. Whatever windows fail,
  the run queries the same windows as a run without failures, logs one error for each
  failed window, raises no failure of the run itself, and ends by setting \<open>isLoaded\<close>:
  the scan is Completed.
\<close>

theorem window_failure_skipped:
  assumes "getBlockNumber nd = Inr H"
  shows "status_of (fst (fetchResources nd s)) = Completed
       \<and> last (snd (fetchResources nd s)) = SetIsLoaded True
       \<and> failure_signals (snd (fetchResources nd s)) = []
       \<and> queries (snd (fetchResources nd s)) = windows_from H 0
       \<and> distinct (queries (snd (fetchResources nd s)))
       \<and> logged_failures (snd (fetchResources nd s)) =
           concat (map (window_failure nd) (windows_from H 0))
       \<and> (\<forall>f t err s'. getLogs nd f t = Inl err \<longrightarrow>
             fetch_window nd f t s' = (s', [CallGetLogs f t, ConsoleErrorLogs f t err]))"
proof -
  have "status_of (fst (fetchResources nd s)) = Completed"
    using assms by (simp add: fetchResources_def status_of_def Let_def)
  moreover have "last (snd (fetchResources nd s)) = SetIsLoaded True"
    using assms by (simp add: fetchResources_def Let_def)
  moreover have "\<forall>f t err s'. getLogs nd f t = Inl err \<longrightarrow>
             fetch_window nd f t s' = (s', [CallGetLogs f t, ConsoleErrorLogs f t err])"
    by (simp add: fetch_window_def)
  ultimately show ?thesis
    using signals_fetchResources [OF assms] queries_fetchResources [OF assms]
      failures_fetchResources [OF assms] windows_from_distinct [of H 0]
    by simp
qed

theorem window_failure_skipped_witness:
  "getBlockNumber (flaky_node 2500) = Inr 2500
   \<and> status_of (fst (fetchResources (flaky_node 2500) initial_state)) = Completed
   \<and> failure_signals (snd (fetchResources (flaky_node 2500) initial_state)) = []
   \<and> queries (snd (fetchResources (flaky_node 2500) initial_state))
       = [(0, 999), (1000, 1999), (2000, 2500)]
   \<and> logged_failures (snd (fetchResources (flaky_node 2500) initial_state))
       = [(1000, 1999, RpcError ''timeout'')]"
proof -
  have h: "getBlockNumber (flaky_node 2500) = Inr 2500"
    by (simp add: flaky_node_def)
  have w: "windows_from 2500 0 = [(0, 999), (1000, 1999), (2000, 2500)]"
    by (simp add: windows_from.simps window_to_min)
  have f: "concat (map (window_failure (flaky_node 2500)) [(0, 999), (1000, 1999), (2000, 2500)])
       = [(1000, 1999, RpcError ''timeout'')]"
    by (simp add: window_failure_def flaky_node_def)
  from window_failure_skipped [OF h, of initial_state] h show ?thesis
    by (simp only: w f)
qed

text \<open>
  C6. When the chain-height query rejects, the run stops there: it logs the one failure
  of the run, leaves \<open>isLoaded\<close> false (the scan is Failed), emits no progress value,
  queries no window, and leaves the progress value and the three collections as they
  were.
\<close>

theorem height_failure_aborts:
  assumes "getBlockNumber nd = Inl err"
  shows "fetchResources nd s =
           (s\<lparr>isLoaded := False\<rparr>,
            [SetIsLoaded False, CallGetBlockNumber, ConsoleErrorResources err, SetIsLoaded False])
       \<and> status_of (fst (fetchResources nd s)) = Failed
       \<and> failure_signals (snd (fetchResources nd s)) = [err]
       \<and> progress_events (snd (fetchResources nd s)) = []
       \<and> queries (snd (fetchResources nd s)) = []
       \<and> progress (fst (fetchResources nd s)) = progress s
       \<and> depositLogs (fst (fetchResources nd s)) = depositLogs s
       \<and> withdrawLogs (fst (fetchResources nd s)) = withdrawLogs s
       \<and> withdrawFillerLogs (fst (fetchResources nd s)) = withdrawFillerLogs s"
  using assms by (simp add: fetchResources_def status_of_def Let_def)

theorem height_failure_aborts_witness:
  "getBlockNumber down_node = Inl (RpcError ''unreachable'')
   \<and> status_of (fst (fetchResources down_node initial_state)) = Failed
   \<and> failure_signals (snd (fetchResources down_node initial_state)) = [RpcError ''unreachable'']
   \<and> progress_events (snd (fetchResources down_node initial_state)) = []
   \<and> depositLogs (fst (fetchResources down_node initial_state)) = []
   \<and> withdrawLogs (fst (fetchResources down_node initial_state)) = []"
proof -
  have h: "getBlockNumber down_node = Inl (RpcError ''unreachable'')"
    by (simp add: down_node_def)
  from height_failure_aborts [OF h, of initial_state]
  have "status_of (fst (fetchResources down_node initial_state)) = Failed
      \<and> failure_signals (snd (fetchResources down_node initial_state)) = [RpcError ''unreachable'']
      \<and> progress_events (snd (fetchResources down_node initial_state)) = []
      \<and> depositLogs (fst (fetchResources down_node initial_state)) = depositLogs initial_state
      \<and> withdrawLogs (fst (fetchResources down_node initial_state)) = withdrawLogs initial_state"
    by blast
  moreover have "depositLogs initial_state = []" "withdrawLogs initial_state = []"
    by (simp_all add: initial_state_def)
  ultimately show ?thesis using h by simp
qed

section \<open>Progress\<close>

text \<open>
  C3. At height 1, with every query resolving, the run queries the one window \<open>[0, 1]\<close>,
  logs its response, and only then emits the progress value, with the cursor already
  advanced to 2: the value is \<open>2 / 1 * 100 = 200\<close>, outside \<open>[0, 100]\<close>, and the scan
  completes. At height 0 the value emitted after the one window \<open>[0, 0]\<close> is
  \<open>1 / 0 * 100\<close>, which is \<open>Infinity\<close>.
\<close>

theorem progress_out_of_range_at_1:
  "snd (fetchResources (quiet_node 1) initial_state)
     = [SetIsLoaded False, CallGetBlockNumber, CallGetLogs 0 1, ConsoleLog 0 1 [],
        SetProgress (Fin 200), SetIsLoaded True]
   \<and> js_le (Fin 200) (Fin 100) = False
   \<and> status_of (fst (fetchResources (quiet_node 1) initial_state)) = Completed
   \<and> snd (fetchResources (quiet_node 0) initial_state)
     = [SetIsLoaded False, CallGetBlockNumber, CallGetLogs 0 0, ConsoleLog 0 0 [],
        SetProgress PosInf, SetIsLoaded True]"
proof -
  have l1: "snd (scan_loop (quiet_node 1) 1 0 s)
      = [CallGetLogs 0 1, ConsoleLog 0 1 [], SetProgress (Fin 200)]" for s
    by (simp add: scan_loop.simps window_to_min fetch_window_def quiet_node_def
          progress_value_2_1 Let_def)
  have l0: "snd (scan_loop (quiet_node 0) 0 0 s)
      = [CallGetLogs 0 0, ConsoleLog 0 0 [], SetProgress PosInf]" for s
    by (simp add: scan_loop.simps window_to_min fetch_window_def quiet_node_def
          progress_value_1_0 Let_def)
  have h1: "getBlockNumber (quiet_node 1) = Inr 1" and h0: "getBlockNumber (quiet_node 0) = Inr 0"
    by (simp_all add: quiet_node_def)
  have "status_of (fst (fetchResources (quiet_node 1) initial_state)) = Completed"
    using h1 by (simp add: fetchResources_def status_of_def Let_def)
  moreover have "snd (fetchResources (quiet_node 1) initial_state)
     = [SetIsLoaded False, CallGetBlockNumber, CallGetLogs 0 1, ConsoleLog 0 1 [],
        SetProgress (Fin 200), SetIsLoaded True]"
    using h1 by (simp add: fetchResources_def Let_def l1)
  moreover have "snd (fetchResources (quiet_node 0) initial_state)
     = [SetIsLoaded False, CallGetBlockNumber, CallGetLogs 0 0, ConsoleLog 0 0 [],
        SetProgress PosInf, SetIsLoaded True]"
    using h0 by (simp add: fetchResources_def Let_def l0)
  ultimately show ?thesis by simp
qed

text \<open>
  Where the cursor is not above the height, that is after every window but the last, the
  emitted value does lie in \<open>[0, 100]\<close>, for a height that is finite as a JavaScript number.
\<close>

lemma progress_before_last_in_range:
  assumes "getBlockNumber nd = Inr H" and "0 \<le> H" and "Number_bigint H \<noteq> PosInf"
  shows "let ws = queries (snd (fetchResources nd s));
             ps = progress_events (snd (fetchResources nd s))
         in length ps = length ws
          \<and> (\<forall>i. Suc i < length ws \<longrightarrow> js_le (Fin 0) (ps ! i) \<and> js_le (ps ! i) (Fin 100))"
proof -
  let ?ws = "windows_from H 0"
  have q: "queries (snd (fetchResources nd s)) = ?ws"
    by (rule queries_fetchResources [OF assms(1)])
  have p: "progress_events (snd (fetchResources nd s)) = map (\<lambda>w. progress_value (snd w + 1) H) ?ws"
    by (rule progress_fetchResources [OF assms(1)])
  have range: "js_le (Fin 0) (progress_value (snd (?ws ! i) + 1) H)
             \<and> js_le (progress_value (snd (?ws ! i) + 1) H) (Fin 100)"
    if "Suc i < length ?ws" for i
  proof -
    from windows_from_before_last [OF that] have b: "0 \<le> snd (?ws ! i) + 1" "snd (?ws ! i) + 1 \<le> H"
      by simp_all
    then have "0 < H" using that windows_from_shape [of "fst (?ws ! i)" "snd (?ws ! i)" H 0]
      by (cases "H = 0") (use assms(2) in auto)
    from progress_value_range [OF b this assms(3)] show ?thesis .
  qed
  show ?thesis
    unfolding q p Let_def using range by simp
qed

text \<open>
  C4. At height 2500 every query succeeds, the windows are \<open>[0, 999]\<close>, \<open>[1000, 1999]\<close>
  and \<open>[2000, 2500]\<close>, and the scan is Completed; the progress values are 40, 80 and
  \<open>2501 / 2500 * 100\<close>, which is the binary64 number printed as 100.03999999999999 and
  is not 100.
\<close>

theorem progress_overshoots_at_2500:
  "queries (snd (fetchResources (quiet_node 2500) initial_state))
     = [(0, 999), (1000, 1999), (2000, 2500)]
   \<and> progress_events (snd (fetchResources (quiet_node 2500) initial_state))
     = [Fin 40, Fin 80, Fin (3519844583766753 / 35184372088832)]
   \<and> status_of (fst (fetchResources (quiet_node 2500) initial_state)) = Completed
   \<and> js_le (Fin (3519844583766753 / 35184372088832)) (Fin 100) = False"
proof -
  have h: "getBlockNumber (quiet_node 2500) = Inr 2500" by (simp add: quiet_node_def)
  have "status_of (fst (fetchResources (quiet_node 2500) initial_state)) = Completed"
    using h by (simp add: fetchResources_def status_of_def Let_def)
  then show ?thesis
    by (simp add: progress_fetchResources [OF h] queries_fetchResources [OF h] windows_2500
          progress_1000_2500 progress_2000_2500 progress_2501_2500)
qed

section \<open>The filler mapping\<close>

text \<open>
  C8 (as stated). The filler collection is keyed by the numeric withdrawId, the last event
  carrying a withdrawId determines the stored fillerId, and distinct 256-bit withdrawIds
  are stored under distinct keys. The key is \<open>Number(withdrawId)\<close>, and the withdrawIds
  \<open>2 ^ 53\<close> and \<open>2 ^ 53 + 1\<close> convert to the same number: declared in this order with
  fillers 1 and 2, they share one key, and the value stored there is 2, not the filler
  of the last event carrying \<open>2 ^ 53\<close>.
\<close>

theorem filler_key_collision_counterexample:
  "(9007199254740992 :: uint256) \<noteq> 9007199254740993
   \<and> Number_arg (Some 9007199254740992) = Number_arg (Some 9007199254740993)
   \<and> withdrawFillerLogs (fst (fetchResources
         (bridge_node [WithdrawFillerDeclared (filler_decl 9007199254740992 1),
                       WithdrawFillerDeclared (filler_decl 9007199254740993 2)]) initial_state))
       (Number_arg (Some 9007199254740992)) = Some (Fin 2)"
proof -
  have a: "Number_arg (Some 9007199254740992) = Fin 9007199254740992"
    using Number_arg_exact [of 9007199254740992] by simp
  have b: "Number_arg (Some 2) = Fin 2"
    using Number_arg_exact [of 2] by simp
  show ?thesis
    by (simp add: withdrawFillerLogs_fetchResources fetched_logs_bridge filler_decl_def
          a b Number_arg_2_53_1)
qed

text \<open>
  C8 (amended). After a run the filler collection maps a key \<open>k\<close> to
  \<open>Number(withdrawFillerId)\<close> of the last received declaration whose
  \<open>Number(withdrawId)\<close> is \<open>k\<close>, and to its earlier value when there is none. The
  conversion is exact up to \<open>2 ^ 53\<close>, so distinct withdrawIds up to \<open>2 ^ 53\<close> are stored
  under distinct keys.
\<close>

theorem filler_last_wins:
  "withdrawFillerLogs (fst (fetchResources nd s)) k =
     (case find (\<lambda>a. Number_arg (withdrawId a) = k)
                (rev [a. WithdrawFillerDeclared a \<leftarrow> fetched_logs nd]) of
        Some a \<Rightarrow> Some (Number_arg (withdrawFillerId a))
      | None \<Rightarrow> withdrawFillerLogs s k)
   \<and> (uint w1 \<le> 2 ^ 53 \<and> uint w2 \<le> 2 ^ 53 \<and> w1 \<noteq> w2
        \<longrightarrow> Number_arg (Some w1) \<noteq> Number_arg (Some w2))"
  by (simp add: withdrawFillerLogs_fetchResources fold_upsert_lookup Number_arg_inj)

theorem filler_last_wins_witness:
  "withdrawFillerLogs (fst (fetchResources
       (bridge_node [WithdrawFillerDeclared (filler_decl 7 1),
                     WithdrawFillerDeclared (filler_decl 7 2)]) initial_state))
     (Number_arg (Some 7)) = Some (Number_arg (Some 2))
   \<and> uint (7 :: uint256) \<le> 2 ^ 53 \<and> uint (8 :: uint256) \<le> 2 ^ 53 \<and> (7 :: uint256) \<noteq> 8
   \<and> Number_arg (Some 7) \<noteq> Number_arg (Some 8)"
  using filler_last_wins [of "bridge_node [WithdrawFillerDeclared (filler_decl 7 1),
                     WithdrawFillerDeclared (filler_decl 7 2)]" initial_state
                     "Number_arg (Some 7)" 7 8]
  by (simp add: fetched_logs_bridge filler_decl_def)

section \<open>Repeated runs\<close>

text \<open>
  C9 (as stated). Every entry present before a scan is still present after it, with
  unchanged contents. This fails for the filler mapping: a first run stores filler 5 for
  withdrawId 1, and a later run that receives a declaration of filler 7 for withdrawId 1
  replaces it.
\<close>

theorem filler_entry_overwritten_counterexample:
  "withdrawFillerLogs (fst (fetchResources
       (bridge_node [WithdrawFillerDeclared (filler_decl 1 5)]) initial_state)) (Fin 1)
     = Some (Fin 5)
   \<and> withdrawFillerLogs (fst (fetchResources
       (bridge_node [WithdrawFillerDeclared (filler_decl 1 7)])
       (fst (fetchResources (bridge_node [WithdrawFillerDeclared (filler_decl 1 5)])
              initial_state)))) (Fin 1)
     = Some (Fin 7)"
proof -
  have a: "Number_arg (Some 1) = Fin 1" using Number_arg_exact [of 1] by simp
  have b: "Number_arg (Some 5) = Fin 5" using Number_arg_exact [of 5] by simp
  have c: "Number_arg (Some 7) = Fin 7" using Number_arg_exact [of 7] by simp
  show ?thesis
    by (simp add: withdrawFillerLogs_fetchResources fetched_logs_bridge filler_decl_def a b c)
qed

text \<open>
  C9 (amended). A run never removes an entry. The deposit and withdrawal collections
  after a run are those before it followed by the received deposits and withdrawals, so
  saving the settings twice against the same node appends the same entries twice. Every
  key of the filler mapping stays a key, and a key that no received declaration converts
  to keeps its value; the value of a declared key is overwritten. The collections are
  empty only in the initial state of a page load.
\<close>

theorem collections_accumulate:
  "depositLogs (fst (fetchResources nd s)) = depositLogs s @ [a. Deposit a \<leftarrow> fetched_logs nd]
   \<and> withdrawLogs (fst (fetchResources nd s)) = withdrawLogs s @ [a. Withdrawal a \<leftarrow> fetched_logs nd]
   \<and> dom (withdrawFillerLogs s) \<subseteq> dom (withdrawFillerLogs (fst (fetchResources nd s)))
   \<and> (k \<notin> (\<lambda>a. Number_arg (withdrawId a)) ` set [a. WithdrawFillerDeclared a \<leftarrow> fetched_logs nd]
        \<longrightarrow> withdrawFillerLogs (fst (fetchResources nd s)) k = withdrawFillerLogs s k)
   \<and> depositLogs (fst (save_settings nd (fst (save_settings nd s))))
       = depositLogs s @ [a. Deposit a \<leftarrow> fetched_logs nd] @ [a. Deposit a \<leftarrow> fetched_logs nd]
   \<and> withdrawLogs (fst (save_settings nd (fst (save_settings nd s))))
       = withdrawLogs s @ [a. Withdrawal a \<leftarrow> fetched_logs nd] @ [a. Withdrawal a \<leftarrow> fetched_logs nd]
   \<and> depositLogs initial_state = [] \<and> withdrawLogs initial_state = []
   \<and> withdrawFillerLogs initial_state = Map.empty"
proof -
  let ?decls = "[a. WithdrawFillerDeclared a \<leftarrow> fetched_logs nd]"
  let ?key = "\<lambda>a. Number_arg (withdrawId a)"
  have look: "withdrawFillerLogs (fst (fetchResources nd s)) j =
     (case find (\<lambda>a. ?key a = j) (rev ?decls) of
        Some a \<Rightarrow> Some (Number_arg (withdrawFillerId a))
      | None \<Rightarrow> withdrawFillerLogs s j)" for j
    by (simp only: withdrawFillerLogs_fetchResources fold_upsert_lookup)
  have "dom (withdrawFillerLogs s) \<subseteq> dom (withdrawFillerLogs (fst (fetchResources nd s)))"
    by (auto simp: look split: option.splits)
  moreover have "withdrawFillerLogs (fst (fetchResources nd s)) k = withdrawFillerLogs s k"
    if "k \<notin> ?key ` set ?decls"
  proof -
    from that have "find (\<lambda>a. ?key a = k) (rev ?decls) = None"
      by (auto simp: find_None_iff)
    then show ?thesis by (simp only: look option.case)
  qed
  ultimately show ?thesis
    by (simp add: depositLogs_fetchResources withdrawLogs_fetchResources save_settings_def
          initial_state_def)
qed

theorem collections_accumulate_witness:
  "Number_arg (Some 9) \<notin> (\<lambda>a. Number_arg (withdrawId a)) `
       set [a. WithdrawFillerDeclared a \<leftarrow> fetched_logs (bridge_node [Deposit deposit_a])]
   \<and> depositLogs (fst (save_settings (bridge_node [Deposit deposit_a])
         (fst (save_settings (bridge_node [Deposit deposit_a]) initial_state))))
       = [deposit_a, deposit_a]
   \<and> withdrawFillerLogs (fst (fetchResources (bridge_node [Deposit deposit_a]) initial_state))
         (Number_arg (Some 9)) = None"
  using collections_accumulate [of "bridge_node [Deposit deposit_a]" initial_state
          "Number_arg (Some 9)"]
  by (simp add: fetched_logs_bridge initial_state_def)

section \<open>The reversed transaction id\<close>

text \<open>
  C10. For a string \<open>h\<close> of hex digits of even length, \<open>reverseHex\<close> of \<open>h\<close> or of
  \<open>0x\<close> followed by \<open>h\<close> has the length of \<open>h\<close>, and its \<open>i\<close>-th pair of characters is
  the \<open>i\<close>-th pair of \<open>h\<close> counted from the end: the prefix is removed and the byte pairs
  are in reverse order. Hence \<open>reverseHex (reverseHex h) = h\<close> for such an \<open>h\<close>, and
  \<open>reverseHex\<close> of the empty string is the empty string.
\<close>

theorem reverseHex_pairs:
  "(hex_string h \<and> even (length h) \<and> (s = h \<or> s = ''0x'' @ h) \<longrightarrow>
      length (reverseHex s) = length h
      \<and> (\<forall>i < length h div 2.
            reverseHex s ! (2 * i) = h ! (length h - 2 - 2 * i)
          \<and> reverseHex s ! (2 * i + 1) = h ! (length h - 1 - 2 * i)))
   \<and> (hex_string h \<and> even (length h) \<longrightarrow> reverseHex (reverseHex h) = h)
   \<and> reverseHex '''' = ''''"
proof (intro conjI impI)
  assume a: "hex_string h \<and> even (length h) \<and> (s = h \<or> s = ''0x'' @ h)"
  then have r: "reverseHex s = concat (rev (match_pairs h))"
    using reverseHex_plain [of h] reverseHex_prefixed [of h] by auto
  from a have nt: "no_terminator h" by (simp add: hex_string_no_terminator)
  show "length (reverseHex s) = length h"
    by (simp only: r length_reversed [OF nt])
  show "\<forall>i < length h div 2.
            reverseHex s ! (2 * i) = h ! (length h - 2 - 2 * i)
          \<and> reverseHex s ! (2 * i + 1) = h ! (length h - 1 - 2 * i)"
    unfolding r using reversed_nth [OF nt] a by blast
next
  assume a: "hex_string h \<and> even (length h)"
  then have nt: "no_terminator h" by (simp add: hex_string_no_terminator)
  from a have "reverseHex (reverseHex h) = reverseHex (concat (rev (match_pairs h)))"
    by (simp add: reverseHex_plain)
  also have "\<dots> = concat (rev (match_pairs (concat (rev (match_pairs h)))))"
    using a by (intro reverseHex_plain hex_string_reversed) simp
  also have "\<dots> = h" using a by (intro reversed_twice [OF nt]) simp
  finally show "reverseHex (reverseHex h) = h" .
next
  show "reverseHex '''' = ''''"
    by (simp add: reverseHex_def js_match_def startsWith_def)
qed

theorem reverseHex_pairs_witness:
  "hex_string ''0a0b0c'' \<and> even (length ''0a0b0c'')
   \<and> reverseHex ''0x0a0b0c'' = ''0c0b0a''
   \<and> length (reverseHex ''0x0a0b0c'') = length ''0a0b0c''
   \<and> reverseHex (reverseHex ''0a0b0c'') = ''0a0b0c''"
proof -
  have h1: "hex_string ''0a0b0c''" by (simp add: hex_string_def is_hex_digit_def)
  have h2: "even (length ''0a0b0c'')" by simp
  have e: "reverseHex ''0x0a0b0c'' = ''0c0b0a''"
    by code_simp
  have h3: "''0x0a0b0c'' = ''0x'' @ ''0a0b0c''" by simp
  from reverseHex_pairs [of "''0a0b0c''" "''0x0a0b0c''"] h1 h2 h3
  have "length (reverseHex ''0x0a0b0c'') = length ''0a0b0c''
      \<and> reverseHex (reverseHex ''0a0b0c'') = ''0a0b0c''"
    by blast
  with h1 h2 e show ?thesis by blast
qed

end
